theory Spec2Isabelle
  imports Complex_Main "HOL-Library.Word"
begin

unbundle bit_operations_syntax

section \<open>Numbers, strings and alphabet maps\<close>

text \<open>
  The engine is JavaScript.  A string is a sequence of code units, modelled as a
  \<open>char list\<close>.  The bitwise operators of the language convert their operands to 32-bit
  integers, so every value that only flows through \<open>&\<close>, \<open>|\<close>, \<open>~\<close>, \<open><<\<close>, \<open>>>\<close>
  and \<open>>>>\<close> is a \<open>32 word\<close>; additions and subtractions whose result is fed to a
  bitwise operator are exact in double precision (all operands are below \<open>2^33\<close>) and are
  then reduced modulo \<open>2^32\<close>, which is word arithmetic.  Scores are JavaScript numbers;
  they are modelled as exact reals, so rounding of double precision is not part of the
  model.
\<close>

type_synonym int32 = "32 word"

definition INT_SIZE :: nat where
  "INT_SIZE = 32"

text \<open>\<open>x << c\<close>: the shift count is taken modulo 32.\<close>

definition shl :: "int32 \<Rightarrow> int \<Rightarrow> int32" where
  "shl x c = push_bit (nat (c mod 32)) x"

text \<open>\<open>x >>> c\<close> (logical) and \<open>x >> c\<close> (arithmetic), with the same rule for the count.\<close>

definition shr_u :: "int32 \<Rightarrow> int \<Rightarrow> int32" where
  "shr_u x c = drop_bit (nat (c mod 32)) x"

definition shr_s :: "int32 \<Rightarrow> int \<Rightarrow> int32" where
  "shr_s x c = signed_drop_bit (nat (c mod 32)) x"

text \<open>
  Positions in the long-token algorithm are numbers that may be \<open>Infinity\<close> (the
  sentinel); \<open>Infinity - Infinity\<close> and a read past the end of an array behave as
  \<open>NaN\<close> in every comparison made on them.
\<close>

datatype num = Num int | Infinity | NaN

fun num_lt :: "num \<Rightarrow> num \<Rightarrow> bool" where
  "num_lt (Num a) (Num b) = (a < b)"
| "num_lt (Num a) Infinity = True"
| "num_lt _ _ = False"

fun num_le :: "num \<Rightarrow> num \<Rightarrow> bool" where
  "num_le (Num a) (Num b) = (a \<le> b)"
| "num_le (Num a) Infinity = True"
| "num_le Infinity Infinity = True"
| "num_le _ _ = False"

fun num_eq :: "num \<Rightarrow> num \<Rightarrow> bool" where
  "num_eq (Num a) (Num b) = (a = b)"
| "num_eq Infinity Infinity = True"
| "num_eq _ _ = False"

fun num_inc :: "num \<Rightarrow> num" where
  "num_inc (Num a) = Num (a + 1)"
| "num_inc x = x"

text \<open>
  An alphabet map sends a code unit either to a bit mask (\<open>bitVector\<close>) or to an array of
  positions (\<open>posVector\<close>): indices into the token, closed by \<open>Infinity\<close>.  Both are
  plain objects in the source, so one map type holds both kinds of entry.
\<close>

datatype pos = Pos nat | PosInfinity

fun num_of_pos :: "pos \<Rightarrow> num" where
  "num_of_pos (Pos i) = Num (int i)"
| "num_of_pos PosInfinity = Infinity"

datatype entry = Bits int32 | Positions "pos list"

type_synonym alphabet_map = "char \<rightharpoonup> entry"

text \<open>
  What a bitwise operator sees of an entry: an array is converted through its string
  form, so only a one-element array of a finite number is not \<open>0\<close>.
\<close>

fun to_int32 :: "entry \<Rightarrow> int32" where
  "to_int32 (Bits w) = w"
| "to_int32 (Positions [Pos n]) = word_of_nat n"
| "to_int32 (Positions _) = 0"

fun bitVector :: "string \<Rightarrow> alphabet_map \<Rightarrow> nat \<Rightarrow> alphabet_map" where
  "bitVector [] mp b = mp"
| "bitVector (c # cs) mp b =
     bitVector cs
       (case mp c of
          Some e \<Rightarrow> mp(c \<mapsto> Bits (to_int32 e OR shl 1 (int b)))
        | None \<Rightarrow> mp(c \<mapsto> Bits (shl 1 (int b))))
       (b + 1)"

fun posVector_scan :: "string \<Rightarrow> nat \<Rightarrow> (char \<rightharpoonup> pos list) \<Rightarrow> (char \<rightharpoonup> pos list)" where
  "posVector_scan [] i mp = mp"
| "posVector_scan (c # cs) i mp =
     posVector_scan cs (i + 1)
       (case mp c of
          Some ps \<Rightarrow> mp(c \<mapsto> ps @ [Pos i])
        | None \<Rightarrow> mp(c \<mapsto> [Pos i]))"

definition posVector :: "string \<Rightarrow> alphabet_map" where
  "posVector pattern =
     (\<lambda>c. case posVector_scan pattern 0 Map.empty c of
             Some ps \<Rightarrow> Some (Positions (ps @ [PosInfinity]))
           | None \<Rightarrow> None)"

definition alphabet :: "string \<Rightarrow> alphabet_map" where
  "alphabet token =
     (if length token > INT_SIZE then posVector token else bitVector token Map.empty 0)"

section \<open>Options\<close>

record options =
  minimum_match :: real
  thresh_include :: real
  thresh_relative_to_best :: real
  field_good_enough :: real
  bonus_match_start :: real
  bonus_token_order :: real
  bonus_position_decay :: real
  score_per_token :: bool
  score_test_fused :: bool
  score_round :: real
  output_limit :: int
  token_query_min_length :: nat
  token_field_min_length :: nat
  token_query_max_length :: nat
  token_field_max_length :: nat
  token_fused_max_length :: nat
  token_min_rel_size :: real
  token_max_rel_size :: real

definition defaultOptions :: options where
  "defaultOptions = \<lparr>
     minimum_match = 1,
     thresh_include = 2,
     thresh_relative_to_best = 1/2,
     field_good_enough = 20,
     bonus_match_start = 1/2,
     bonus_token_order = 2,
     bonus_position_decay = 7/10,
     score_per_token = True,
     score_test_fused = False,
     score_round = 1/10,
     output_limit = 0,
     token_query_min_length = 2,
     token_field_min_length = 3,
     token_query_max_length = 64,
     token_field_max_length = 64,
     token_fused_max_length = 64,
     token_min_rel_size = 6/10,
     token_max_rel_size = 6 \<rparr>"

section \<open>Scoring a query token against a field token\<close>

subsection \<open>Long tokens: \<open>llcs_large\<close>\<close>

text \<open>
  A row of the dynamic programming table is a list of blocks \<open>[start, end)\<close>.  The
  blocks are objects mutated in place in the source; a block of the previous row is
  never read again once the scan has passed it, so the rows are plain lists here.
\<close>

type_synonym block = "num \<times> num"

text \<open>\<open>block_size === 1\<close> and \<open>block_size > 1\<close> for \<open>block_size = end - start\<close>.\<close>

fun size_is_one :: "num \<Rightarrow> num \<Rightarrow> bool" where
  "size_is_one (Num s) (Num e) = (e - s = 1)"
| "size_is_one _ _ = False"

fun size_gt_one :: "num \<Rightarrow> num \<Rightarrow> bool" where
  "size_gt_one (Num s) (Num e) = (e - s > 1)"
| "size_gt_one (Num s) Infinity = True"
| "size_gt_one _ _ = False"

text \<open>
  \<open>while (match_pos < last_end) match_pos = match_list[++match_index]\<close>, on the part of
  the match list from \<open>match_index\<close> on.
\<close>

fun next_match :: "num list \<Rightarrow> num \<Rightarrow> num list" where
  "next_match [] last_end = []"
| "next_match (p # ps) last_end =
     (if num_lt p last_end then next_match ps last_end else p # ps)"

definition match_pos_of :: "num list \<Rightarrow> num" where
  "match_pos_of ms = (case ms of [] \<Rightarrow> NaN | p # _ \<Rightarrow> p)"

text \<open>
  \<open>current_line[line_index].end++\<close> on the block registered last.  The row is never
  empty there: the branch needs \<open>match_pos === last_end\<close>, and before the first block
  \<open>last_end\<close> is \<open>-1\<close>, which is no position.
\<close>

definition bump_last_end :: "block list \<Rightarrow> block list" where
  "bump_last_end line =
     (case rev line of
        [] \<Rightarrow> line
      | (s, e) # r \<Rightarrow> rev ((s, num_inc e) # r))"

text \<open>
  The scan of the previous row.  The state is the rest of the match list, the row being
  built, the end of the block read last, and that block (with the \<open>block_start\<close> read
  from it), which the code after the loop looks at again.
\<close>

fun scan_blocks ::
  "block list \<Rightarrow> num list \<Rightarrow> block list \<Rightarrow> num \<Rightarrow> num \<Rightarrow> block
     \<Rightarrow> num list \<times> block list \<times> num \<times> block" where
  "scan_blocks [] ms current_line block_end block_start block =
     (ms, current_line, block_start, block)"
| "scan_blocks ((bs, be) # rest) ms current_line block_end block_start block =
     (let last_end = block_end;
          ms' = next_match ms last_end;
          match_pos = match_pos_of ms'
      in if num_le bs match_pos
         then scan_blocks rest ms' (current_line @ [(bs, be)]) be bs (bs, be)
         else
           let registered =
                 (if num_eq match_pos last_end then (bump_last_end current_line, (bs, be))
                  else if size_is_one bs be
                       then (current_line @ [(match_pos, num_inc match_pos)],
                             (match_pos, num_inc match_pos))
                       else (current_line @ [(match_pos, num_inc match_pos)], (bs, be)));
               line1 = fst registered;
               blk1 = snd registered
           in if size_gt_one bs be
              then scan_blocks rest ms' (line1 @ [(num_inc (fst blk1), snd blk1)]) be bs
                     (num_inc (fst blk1), snd blk1)
              else scan_blocks rest ms' line1 be bs blk1)"

fun llcs_rows :: "alphabet_map \<Rightarrow> string \<Rightarrow> block list \<Rightarrow> int \<Rightarrow> int" where
  "llcs_rows aMap [] last_line lcs_len = lcs_len"
| "llcs_rows aMap (c # cs) last_line lcs_len =
     (case aMap c of
        None \<Rightarrow> llcs_rows aMap cs last_line lcs_len
      | Some e \<Rightarrow>
          let match_list = (case e of Positions ps \<Rightarrow> map num_of_pos ps | Bits w \<Rightarrow> []);
              r = scan_blocks last_line match_list [] (Num (- 1)) NaN (NaN, NaN);
              ms = fst r;
              current_line = fst (snd r);
              block_start = fst (snd (snd r));
              block = snd (snd (snd r))
          in if num_lt (match_pos_of ms) block_start
             then llcs_rows aMap cs (current_line @ [block]) (lcs_len + 1)
             else llcs_rows aMap cs current_line lcs_len)"

definition llcs_large :: "string \<Rightarrow> string \<Rightarrow> alphabet_map \<Rightarrow> nat \<Rightarrow> int" where
  "llcs_large a b aMap prefix =
     llcs_rows aMap (drop prefix b)
       (if prefix \<noteq> 0 then [(Num 0, Num (int prefix)), (Infinity, Infinity)]
        else [(Infinity, Infinity)])
       (int prefix)"

subsection \<open>Short tokens: the bit-parallel recurrence of \<open>score_map\<close>\<close>

text \<open>The common prefix loop \<open>while ((a[prefix] === b[prefix]) && (++prefix < k))\<close>.\<close>

function prefix_loop :: "string \<Rightarrow> string \<Rightarrow> nat \<Rightarrow> nat \<Rightarrow> nat" where
  "prefix_loop a b prefix k =
     (if prefix < length a \<and> prefix < length b \<and> a ! prefix = b ! prefix
      then (if prefix + 1 < k then prefix_loop a b (prefix + 1) k else prefix + 1)
      else if length a \<le> prefix \<and> length b \<le> prefix
           then (if prefix + 1 < k then prefix_loop a b (prefix + 1) k else prefix + 1)
           else prefix)"
  by pat_completeness auto
termination
  by (relation "measure (\<lambda>(a, b, prefix, k). k - prefix)") auto

declare prefix_loop.simps [simp del]

definition common_prefix :: "string \<Rightarrow> string \<Rightarrow> nat \<Rightarrow> nat" where
  "common_prefix a b k = (if a = b then k else prefix_loop a b 0 k)"

text \<open>The sweep over the field token: \<open>U = S & aMap[c]; S = (S + U) | (S - U)\<close>.\<close>

fun sweep :: "alphabet_map \<Rightarrow> string \<Rightarrow> int32 \<Rightarrow> int32" where
  "sweep aMap [] S = S"
| "sweep aMap (c # cs) S =
     (case aMap c of
        None \<Rightarrow> sweep aMap cs S
      | Some e \<Rightarrow> (let U = S AND to_int32 e in sweep aMap cs ((S + U) OR (S - U))))"

text \<open>The branch-free population count of \<open>score_map\<close>.\<close>

definition popcount32 :: "int32 \<Rightarrow> int32" where
  "popcount32 S0 =
     (let S1 = S0 - (shr_s S0 1 AND 0x55555555);
          S2 = (S1 AND 0x33333333) + (shr_s S1 2 AND 0x33333333)
      in shr_s (((S2 + shr_s S2 4) AND 0x0F0F0F0F) * 0x01010101) 24)"

text \<open>Lines 1115 to 1139 of \<open>score_map\<close>: the value of \<open>lcs_len\<close> on the short path.\<close>

definition llcs_short :: "string \<Rightarrow> string \<Rightarrow> alphabet_map \<Rightarrow> nat \<Rightarrow> int" where
  "llcs_short a b aMap prefix =
     (let m = length a;
          mask = shl 1 (int m) - 1;
          S = sweep aMap (drop prefix b) mask;
          mask' = mask AND NOT (shl 1 (int prefix) - 1)
      in sint (popcount32 (NOT S AND mask')) + int prefix)"

definition sz_score :: "nat \<Rightarrow> nat \<Rightarrow> real" where
  "sz_score m n = (real m + real n) / (2 * real m * real n)"

definition score_map :: "string \<Rightarrow> string \<Rightarrow> alphabet_map \<Rightarrow> options \<Rightarrow> real" where
  "score_map a b aMap opts =
     (let m = length a;
          n = length b;
          bonus_prefix = bonus_match_start opts;
          k = (if m < n then m else n)
      in if k = 0 \<or> real n < token_min_rel_size opts * real m
              \<or> real n > token_max_rel_size opts * real m
         then 0
         else
           let prefix = common_prefix a b k
           in if prefix = k
              then sz_score m n * real prefix * real prefix + bonus_prefix * real prefix
              else if m > INT_SIZE
              then (let lcs_len = llcs_large a b aMap prefix
                    in sz_score m n * real_of_int lcs_len * real_of_int lcs_len
                       + bonus_prefix * real prefix)
              else (let lcs_len = llcs_short a b aMap prefix
                    in sz_score m n * real_of_int lcs_len * real_of_int lcs_len
                       + bonus_prefix * real prefix))"

definition score :: "options \<Rightarrow> string \<Rightarrow> string \<Rightarrow> real" where
  "score opts a b = score_map a b (alphabet a) opts"

section \<open>Packing query tokens\<close>

record PackInfo =
  tokens :: "string list"
  amap :: alphabet_map
  gate :: int32
  score_item :: "real list"
  score_field :: "real list"
  field_pos :: "nat list"

text \<open>The constructor: three arrays of zeros, one cell per token.\<close>

definition new_PackInfo :: "string list \<Rightarrow> alphabet_map \<Rightarrow> int32 \<Rightarrow> PackInfo" where
  "new_PackInfo group_tokens group_map g =
     \<lparr> tokens = group_tokens, amap = group_map, gate = g,
       score_item = replicate (length group_tokens) 0,
       score_field = replicate (length group_tokens) 0,
       field_pos = replicate (length group_tokens) 0 \<rparr>"

text \<open>
  The inner loop of \<open>pack_tokens\<close>, on the tokens not yet consumed.  It returns the
  group built, the group of a large token if it stopped on one, the tokens left, and
  whether it left through a \<open>break\<close>.
\<close>

fun pack_group ::
  "string list \<Rightarrow> string list \<Rightarrow> alphabet_map \<Rightarrow> nat \<Rightarrow> int32
     \<Rightarrow> string list \<times> alphabet_map \<times> int32 \<times> PackInfo option \<times> string list \<times> bool" where
  "pack_group [] group_tokens group_map offset g =
     (group_tokens, group_map, g, None, [], False)"
| "pack_group (token # rest) group_tokens group_map offset g =
     (let l = length token
      in if l \<ge> INT_SIZE
         then (group_tokens, group_map, g,
               Some (new_PackInfo [token] (posVector token) 0xFFFFFFFF), rest, True)
         else if l + offset \<ge> INT_SIZE
         then (group_tokens, group_map, g, None, token # rest, True)
         else pack_group rest (group_tokens @ [token]) (bitVector token group_map offset)
                (offset + l) (g OR shl (shl 1 (int l - 1) - 1) (int offset)))"

lemma pack_group_rest_le:
  "pack_group ts gt gm off g = (gt', gm', g', large, rest, broke) \<Longrightarrow> length rest \<le> length ts"
  by (induction ts gt gm off g rule: pack_group.induct)
     (auto simp: Let_def split: if_splits)

lemma pack_group_progress:
  "pack_group ts gt gm 0 g = (gt', gm', g', large, rest, True) \<Longrightarrow> length rest < length ts"
proof (cases ts)
  case Nil
  then show "pack_group ts gt gm 0 g = (gt', gm', g', large, rest, True) \<Longrightarrow> ?thesis"
    by simp
next
  case (Cons t ts')
  assume h: "pack_group ts gt gm 0 g = (gt', gm', g', large, rest, True)"
  show ?thesis
  proof (cases "length t \<ge> INT_SIZE")
    case True
    with h Cons show ?thesis by (simp add: Let_def)
  next
    case False
    with h Cons have
      "pack_group ts' (gt @ [t]) (bitVector t gm 0) (0 + length t)
         (g OR shl (shl 1 (int (length t) - 1) - 1) (int 0)) = (gt', gm', g', large, rest, True)"
      by (simp add: Let_def)
    from pack_group_rest_le [OF this] Cons show ?thesis by simp
  qed
qed

text \<open>The outer loop: it runs again as long as the inner loop left through a \<open>break\<close>.\<close>

function pack_groups :: "string list \<Rightarrow> PackInfo list \<Rightarrow> PackInfo list" where
  "pack_groups ts groups =
     (let r = pack_group ts [] Map.empty 0 0;
          group_tokens = fst r;
          group_map = fst (snd r);
          g = fst (snd (snd r));
          large = fst (snd (snd (snd r)));
          rest = fst (snd (snd (snd (snd r))));
          broke = snd (snd (snd (snd (snd r))));
          groups1 = (if length group_tokens > 0
                     then groups @ [new_PackInfo group_tokens group_map g] else groups);
          groups2 = (case large of Some lg \<Rightarrow> groups1 @ [lg] | None \<Rightarrow> groups1)
      in if broke then pack_groups rest groups2 else groups2)"
  by pat_completeness auto
termination
proof (relation "measure (\<lambda>(ts, groups). length ts)")
  show "wf (measure (\<lambda>(ts, groups). length ts))"
    by simp
next
  fix ts :: "string list" and groups :: "PackInfo list"
    and r group_tokens group_map g large rest broke groups1 groups2
  assume "r = pack_group ts [] Map.empty 0 0" "rest = fst (snd (snd (snd (snd r))))"
    "broke = snd (snd (snd (snd (snd r))))" "broke"
  then have "pack_group ts [] Map.empty 0 0 =
      (fst r, fst (snd r), fst (snd (snd r)), fst (snd (snd (snd r))), rest, True)"
    by (simp add: prod_eq_iff)
  from pack_group_progress [OF this]
  show "((rest, groups2), (ts, groups)) \<in> measure (\<lambda>(ts, groups). length ts)"
    by simp
qed

declare pack_groups.simps [simp del]

definition pack_tokens :: "string list \<Rightarrow> PackInfo list" where
  "pack_tokens ts = pack_groups ts []"

section \<open>Scoring a packed group against a field token\<close>

text \<open>The sweep of \<open>score_pack\<close>, gated by \<open>ZM\<close>.\<close>

fun sweep_pack :: "alphabet_map \<Rightarrow> int32 \<Rightarrow> string \<Rightarrow> int32 \<Rightarrow> int32" where
  "sweep_pack aMap ZM [] S = S"
| "sweep_pack aMap ZM (c # cs) S =
     (case aMap c of
        None \<Rightarrow> sweep_pack aMap ZM cs S
      | Some e \<Rightarrow>
          (let U = S AND to_int32 e
           in sweep_pack aMap ZM cs (((S AND ZM) + (U AND ZM)) OR (S - U))))"

lemma and_pred_less:
  fixes w :: int32
  assumes "w \<noteq> 0"
  shows "unat (w AND (w - 1)) < unat w"
proof -
  have "w AND (w - 1) \<le> w - 1"
    by (rule word_and_le1)
  then have "unat (w AND (w - 1)) \<le> unat (w - 1)"
    by (simp add: word_le_nat_alt)
  moreover have "unat (w - 1) < unat w"
    using assms by (simp add: unat_minus_one unat_gt_0)
  ultimately show ?thesis by simp
qed

text \<open>\<open>while (Sm) { Sm &= Sm - 1; lcs_len++ }\<close>\<close>

function count_bits :: "int32 \<Rightarrow> int \<Rightarrow> int" where
  "count_bits Sm lcs_len =
     (if Sm \<noteq> 0 then count_bits (Sm AND (Sm - 1)) (lcs_len + 1) else lcs_len)"
  by pat_completeness auto
termination
  by (relation "measure (\<lambda>(Sm, lcs_len). unat Sm)") (auto simp: and_pred_less)

declare count_bits.simps [simp del]

text \<open>
  The loop over the packed tokens, \<open>offset\<close> being the start of the lane.  A score is
  \<open>None\<close> when the source's number is \<open>NaN\<close>: past the size gate with an empty token,
  \<open>sz\<close> is infinite or \<open>NaN\<close> and the count is \<open>0\<close> (an empty query token passes the
  gate against the empty field token only, and for the empty field token no bit of \<open>~S\<close>
  is set), so that \<open>sz * lcs_len * lcs_len\<close> is \<open>NaN\<close>.
\<close>

fun score_lanes ::
  "options \<Rightarrow> string \<Rightarrow> int32 \<Rightarrow> string list \<Rightarrow> nat \<Rightarrow> real option list" where
  "score_lanes opts field_token S [] offset = []"
| "score_lanes opts field_token S (query_tok # rest) offset =
     (let m = length query_tok;
          n = length field_token
      in if real n < token_min_rel_size opts * real m
              \<or> real n > token_max_rel_size opts * real m
         then Some 0 # score_lanes opts field_token S rest (offset + m)
         else
           let pl = (if query_tok = field_token then (m, int m)
                     else
                       let p = (if m < n then m else n);
                           prefix = prefix_loop query_tok field_token 0 p;
                           Sm = shr_u (shr_u S (int offset) AND (shl 1 (int m) - 1)) (int prefix)
                       in (prefix, count_bits Sm (int prefix)));
               prefix = fst pl;
               lcs_len = snd pl
           in (if m = 0 \<or> n = 0 then None
               else Some (sz_score m n * real_of_int lcs_len * real_of_int lcs_len
                            + bonus_match_start opts * real prefix))
              # score_lanes opts field_token S rest (offset + m))"

definition score_pack :: "PackInfo \<Rightarrow> string \<Rightarrow> options \<Rightarrow> real option list" where
  "score_pack packinfo field_token opts =
     (let S = sweep_pack (amap packinfo) (gate packinfo) field_token 0xFFFFFFFF
      in score_lanes opts field_token (NOT S) (tokens packinfo) 0)"

section \<open>Preparing the query and the index\<close>

text \<open>
  \<open>normalize\<close>, on code units below 256: lower case, every run of white space replaced
  by one space, and the accented letters of \<open>diacriticsMap\<close> replaced by their base
  letter.  The empty string is returned as it is by the first line of the source.
\<close>

definition is_space :: "char \<Rightarrow> bool" where
  "is_space c = ((of_char c :: nat) \<in> set [9, 10, 11, 12, 13, 32, 160])"

definition to_lower :: "char \<Rightarrow> char" where
  "to_lower c =
     (let n = (of_char c :: nat)
      in if (65 \<le> n \<and> n \<le> 90) \<or> (192 \<le> n \<and> n \<le> 222 \<and> n \<noteq> 215)
         then char_of (n + 32) else c)"

function collapse_spaces :: "string \<Rightarrow> string" where
  "collapse_spaces [] = []"
| "collapse_spaces (c # cs) =
     (if is_space c then CHR '' '' # collapse_spaces (dropWhile is_space cs)
      else c # collapse_spaces cs)"
  by pat_completeness auto
termination
  by (relation "measure length") (auto simp: less_Suc_eq_le length_dropWhile_le)

definition diacriticsMap :: "(nat \<times> char) list" where
  "diacriticsMap =
     [(0xE3, CHR ''a''), (0xE0, CHR ''a''), (0xE1, CHR ''a''), (0xE4, CHR ''a''),
      (0xE2, CHR ''a''), (0xE6, CHR ''a''), (0xE8, CHR ''e''), (0xE9, CHR ''e''),
      (0xEB, CHR ''e''), (0xEA, CHR ''e''), (0xEC, CHR ''i''), (0xED, CHR ''i''),
      (0xEF, CHR ''i''), (0xEE, CHR ''i''), (0xF5, CHR ''o''), (0xF2, CHR ''o''),
      (0xF3, CHR ''o''), (0xF6, CHR ''o''), (0xF4, CHR ''o''), (0xF9, CHR ''u''),
      (0xFA, CHR ''u''), (0xFC, CHR ''u''), (0xFB, CHR ''u''), (0xF1, CHR ''n''),
      (0xE7, CHR ''c'')]"

definition fold_diacritic :: "char \<Rightarrow> char" where
  "fold_diacritic c =
     (if (of_char c :: nat) > 0x7E
      then (case map_of diacriticsMap (of_char c) of Some d \<Rightarrow> d | None \<Rightarrow> c)
      else c)"

definition normalize :: "string \<Rightarrow> string" where
  "normalize str =
     (if str = [] then [] else map fold_diacritic (collapse_spaces (map to_lower str)))"

text \<open>\<open>str.split(" ")\<close> and \<open>array.join(" ")\<close>.\<close>

fun split_space :: "string \<Rightarrow> string list" where
  "split_space [] = [[]]"
| "split_space (c # cs) =
     (if c = CHR '' '' then [] # split_space cs
      else (case split_space cs of w # ws \<Rightarrow> (c # w) # ws | [] \<Rightarrow> [[c]]))"

fun join_space :: "string list \<Rightarrow> string" where
  "join_space [] = []"
| "join_space [x] = x"
| "join_space (x # y # ys) = x @ CHR '' '' # join_space (y # ys)"

fun filterSize :: "string list \<Rightarrow> nat \<Rightarrow> nat \<Rightarrow> string list" where
  "filterSize [] minSize maxSize = []"
| "filterSize (str # rest) minSize maxSize =
     (if length str \<ge> minSize
      then (if length str < maxSize then str else take maxSize str)
           # filterSize rest minSize maxSize
      else filterSize rest minSize maxSize)"

record Query =
  normalized :: string
  tokens_groups :: "PackInfo list"
  fused_str :: string
  fused_score :: real
  fused_map :: alphabet_map
  single :: bool

definition prepQuery :: "options \<Rightarrow> string \<Rightarrow> Query" where
  "prepQuery opts querystring =
     (let norm_query = normalize querystring;
          toks = (if score_per_token opts
                  then filterSize (split_space norm_query) (token_query_min_length opts)
                         (token_query_max_length opts)
                  else []);
          sgl = (length toks < 2);
          groups = (if sgl then [] else pack_tokens toks);
          fused = take (if sgl then token_field_max_length opts
                        else token_fused_max_length opts) norm_query;
          mp = (if score_test_fused opts \<or> \<not> score_per_token opts \<or> sgl
                then alphabet fused else Map.empty)
      in \<lparr> normalized = norm_query, tokens_groups = groups, fused_str = fused,
           fused_score = 0, fused_map = mp, single = sgl \<rparr>)"

text \<open>
  An indexed item: the original and, for every field, its normalised tokens.  A search
  result extends it.  The score of a result is \<open>None\<close> when the source's number is
  \<open>NaN\<close>.
\<close>

record 'a Indexed =
  item :: 'a
  item_fields :: "string list list"

record 'a SearchResult = "'a Indexed" +
  score_of :: "real option"
  matchIndex :: int
  sortKey :: string

datatype error = TypeError

section \<open>The fields of an item\<close>

text \<open>
  The items of a source are values of the host language: \<open>undefined\<close>, \<open>null\<close>, a string,
  number or boolean (given by its text, which is all that is read of it), an array, a
  plain object (its own enumerable properties in the order of enumeration, under distinct
  names), or any other object, such as a function or a date (given by its text).  Arrays
  and objects have the \<open>toString\<close> of their prototypes.  The properties that an object
  gets from its prototypes are a parameter \<open>proto\<close> of what follows.
\<close>

datatype jsval =
  JUndefined | JNull | JPrim string | JArr "jsval list" | JObj "(string \<times> jsval) list"
  | JHost string

text \<open>The decimal text of an index.\<close>

function dec :: "nat \<Rightarrow> string" where
  "dec n = (if n < 10 then [char_of (48 + n)] else dec (n div 10) @ [char_of (48 + n mod 10)])"
  by pat_completeness auto
termination
  by (relation "measure id") auto

declare dec.simps [simp del]

text \<open>\<open>array.join(",")\<close>, and the text of a value as an element of a joined array.\<close>

fun join_comma :: "string list \<Rightarrow> string" where
  "join_comma [] = []"
| "join_comma [x] = x"
| "join_comma (x # y # ys) = x @ CHR '','' # join_comma (y # ys)"

fun element_text :: "jsval \<Rightarrow> string" where
  "element_text JUndefined = []"
| "element_text JNull = []"
| "element_text (JPrim s) = s"
| "element_text (JHost s) = s"
| "element_text (JObj ps) = ''[object Object]''"
| "element_text (JArr xs) = join_comma (map element_text xs)"

text \<open>\<open>obj.toString()\<close>: a \<open>TypeError\<close> on \<open>undefined\<close> and \<open>null\<close>.\<close>

definition toString :: "jsval \<Rightarrow> error + string" where
  "toString obj =
     (case obj of JUndefined \<Rightarrow> Inl TypeError | JNull \<Rightarrow> Inl TypeError
      | _ \<Rightarrow> Inr (element_text obj))"

text \<open>
  \<open>key in obj\<close> and \<open>obj[key]\<close>: the elements and the length of an array, the own
  properties of an object, and then what the prototypes give.  On a value that is not an
  object \<open>in\<close> raises a \<open>TypeError\<close>.
\<close>

definition has_properties :: "jsval \<Rightarrow> bool" where
  "has_properties obj =
     (case obj of JArr xs \<Rightarrow> True | JObj ps \<Rightarrow> True | JHost s \<Rightarrow> True | _ \<Rightarrow> False)"

definition own_property :: "jsval \<Rightarrow> string \<Rightarrow> jsval option" where
  "own_property obj key =
     (case obj of
        JArr xs \<Rightarrow>
          (if key = ''length'' then Some (JPrim (dec (length xs)))
           else (case find (\<lambda>i. dec i = key) [0..<length xs] of
                   Some i \<Rightarrow> Some (xs ! i) | None \<Rightarrow> None))
      | JObj ps \<Rightarrow> map_of ps key
      | _ \<Rightarrow> None)"

definition property :: "(jsval \<Rightarrow> string \<Rightarrow> jsval option) \<Rightarrow> jsval \<Rightarrow> string \<Rightarrow> jsval option" where
  "property proto obj key =
     (case own_property obj key of Some v \<Rightarrow> Some v | None \<Rightarrow> proto obj key)"

text \<open>\<open>str.split(".")\<close>\<close>

fun split_dot :: "string \<Rightarrow> string list" where
  "split_dot [] = [[]]"
| "split_dot (c # cs) =
     (if c = CHR ''.'' then [] # split_dot cs
      else (case split_dot cs of w # ws \<Rightarrow> (c # w) # ws | [] \<Rightarrow> [[c]]))"

text \<open>
  The first loop of \<open>_collectValues\<close>, which follows the keys down from \<open>obj\<close>: it ends
  with the value and the level reached, or with \<open>None\<close> where the source returns the list
  as it is because a key is not in the object.
\<close>

function descend ::
  "(jsval \<Rightarrow> string \<Rightarrow> jsval option) \<Rightarrow> string list \<Rightarrow> jsval \<Rightarrow> nat
     \<Rightarrow> error + (jsval \<times> nat) option" where
  "descend proto parts obj level =
     (if level < length parts
      then (let key = parts ! level
            in if key = ''*'' \<or> key = [] then Inr (Some (obj, level))
               else if \<not> has_properties obj then Inl TypeError
               else (case property proto obj key of
                       None \<Rightarrow> Inr None
                     | Some v \<Rightarrow> descend proto parts v (level + 1)))
      else Inr (Some (obj, level)))"
  by pat_completeness auto
termination
  by (relation "measure (\<lambda>(proto, parts, obj, level). length parts - level)") auto

declare descend.simps [simp del]

lemma descend_level:
  "descend proto parts obj level = Inr (Some (obj', level')) \<Longrightarrow> level \<le> level'"
proof (induction proto parts obj level rule: descend.induct)
  case (1 proto parts obj level)
  show ?case
  proof (cases "level < length parts")
    case False
    with "1.prems" show ?thesis by (simp add: descend.simps)
  next
    case True
    note lt = this
    show ?thesis
    proof (cases "parts ! level = ''*'' \<or> parts ! level = []")
      case True
      with lt "1.prems" show ?thesis by (simp add: descend.simps)
    next
      case False
      note nk = this
      show ?thesis
      proof (cases "has_properties obj")
        case False
        with lt nk "1.prems" show ?thesis by (simp add: descend.simps)
      next
        case True
        show ?thesis
        proof (cases "property proto obj (parts ! level)")
          case None
          with lt nk True "1.prems" show ?thesis by (simp add: descend.simps)
        next
          case (Some v)
          with lt nk True "1.prems"
          have "descend proto parts v (level + 1) = Inr (Some (obj', level'))"
            by (simp add: descend.simps)
          from "1.IH" [OF lt refl _ _ Some this] nk True show ?thesis by simp
        qed
      qed
    qed
  qed
qed

text \<open>\<open>list.push(x.toString())\<close> for every \<open>x\<close> of \<open>xs\<close>.\<close>

fun push_texts :: "jsval list \<Rightarrow> string list \<Rightarrow> error + string list" where
  "push_texts [] lst = Inr lst"
| "push_texts (x # xs) lst =
     (case toString x of Inl err \<Rightarrow> Inl err | Inr s \<Rightarrow> push_texts xs (lst @ [s]))"

text \<open>
  \<open>_collectValues\<close>, which returns the list with what it has pushed, and its two loops
  over the children for the key \<open>*\<close>.
\<close>

function collectValues ::
    "(jsval \<Rightarrow> string \<Rightarrow> jsval option) \<Rightarrow> string list \<Rightarrow> jsval \<Rightarrow> string list \<Rightarrow> nat
       \<Rightarrow> error + string list"
  and collectEach ::
    "(jsval \<Rightarrow> string \<Rightarrow> jsval option) \<Rightarrow> string list \<Rightarrow> jsval list \<Rightarrow> string list \<Rightarrow> nat
       \<Rightarrow> error + string list" where
  "collectValues proto parts obj lst level =
     (case descend proto parts obj level of
        Inl err \<Rightarrow> Inl err
      | Inr None \<Rightarrow> Inr lst
      | Inr (Some (obj1, level1)) \<Rightarrow>
          if level1 = length parts
          then (case obj1 of
                  JArr xs \<Rightarrow> push_texts xs lst
                | JObj ps \<Rightarrow> push_texts (map snd ps) lst
                | _ \<Rightarrow> push_texts [obj1] lst)
          else if level1 < length parts \<and> parts ! level1 = ''*''
          then (case obj1 of
                  JArr xs \<Rightarrow> collectEach proto parts xs lst (level1 + 1)
                | JObj ps \<Rightarrow> collectEach proto parts (map snd ps) lst (level1 + 1)
                | _ \<Rightarrow> Inr lst)
          else Inr lst)"
| "collectEach proto parts [] lst level = Inr lst"
| "collectEach proto parts (x # xs) lst level =
     (case collectValues proto parts x lst level of
        Inl err \<Rightarrow> Inl err
      | Inr lst1 \<Rightarrow> collectEach proto parts xs lst1 level)"
  by pat_completeness auto
termination
proof (relation "measures [\<lambda>x. case x of Inl (proto, parts, obj, lst, level) \<Rightarrow> length parts - level
                                    | Inr (proto, parts, xs, lst, level) \<Rightarrow> length parts - level,
                           \<lambda>x. case x of Inl (proto, parts, obj, lst, level) \<Rightarrow> 0
                                    | Inr (proto, parts, xs, lst, level) \<Rightarrow> Suc (length xs)]")
  show "wf (measures [\<lambda>x. case x of Inl (proto, parts, obj, lst, level) \<Rightarrow> length parts - level
                                    | Inr (proto, parts, xs, lst, level) \<Rightarrow> length parts - level,
                           \<lambda>x. case x of Inl (proto, parts, obj, lst, level) \<Rightarrow> 0
                                    | Inr (proto, parts, xs, lst, level) \<Rightarrow> Suc (length xs)])"
    by simp
qed (auto dest: descend_level)

declare collectValues.simps [simp del]

text \<open>\<open>generateFields\<close>\<close>

fun collectKeys ::
  "(jsval \<Rightarrow> string \<Rightarrow> jsval option) \<Rightarrow> jsval \<Rightarrow> string list \<Rightarrow> string list
     \<Rightarrow> error + string list" where
  "collectKeys proto obj [] indexed_fields = Inr indexed_fields"
| "collectKeys proto obj (k # ks) indexed_fields =
     (case collectValues proto (split_dot k) obj indexed_fields 0 of
        Inl err \<Rightarrow> Inl err
      | Inr lst \<Rightarrow> collectKeys proto obj ks lst)"

definition generateFields ::
  "(jsval \<Rightarrow> string \<Rightarrow> jsval option) \<Rightarrow> jsval \<Rightarrow> string list \<Rightarrow> error + string list" where
  "generateFields proto obj fieldlist =
     (if fieldlist = []
      then (case toString obj of Inl err \<Rightarrow> Inl err | Inr s \<Rightarrow> Inr [s])
      else collectKeys proto obj fieldlist [])"

section \<open>The index\<close>

text \<open>
  \<open>addSource\<close> with \<open>overwrite\<close> set: it raises what the extraction of the fields of an
  item raises.  The extraction is a parameter, \<open>generateFields proto\<close> for the items
  above.
\<close>

definition tokens_of_field :: "options \<Rightarrow> string \<Rightarrow> string list" where
  "tokens_of_field opts str =
     filterSize (split_space (normalize str)) (token_field_min_length opts)
       (token_field_max_length opts)"

fun addSource ::
  "('a \<Rightarrow> string list \<Rightarrow> error + string list) \<Rightarrow> options \<Rightarrow> 'a list \<Rightarrow> string list
     \<Rightarrow> error + 'a Indexed list" where
  "addSource gen opts [] ks = Inr []"
| "addSource gen opts (it # src) ks =
     (case gen it ks of
        Inl err \<Rightarrow> Inl err
      | Inr values \<Rightarrow>
          (case addSource gen opts src ks of
             Inl err \<Rightarrow> Inl err
           | Inr idx \<Rightarrow>
               Inr (\<lparr> item = it, item_fields = map (tokens_of_field opts) values \<rparr> # idx)))"

section \<open>Scoring a field\<close>

text \<open>\<open>for (i = -1; ++i < n;) array[i] = 0\<close>\<close>

definition zero_cells :: "nat \<Rightarrow> 'a::zero list \<Rightarrow> 'a list" where
  "zero_cells n xs = replicate n 0 @ drop n xs"

text \<open>
  The loop over the tokens of the field for one group: \<open>best_of_field\<close> and
  \<open>best_index\<close> are the group's arrays \<open>score_field\<close> and \<open>field_pos\<close>.  A score that is
  \<open>NaN\<close> is greater than nothing.
\<close>

fun token_loop ::
  "options \<Rightarrow> PackInfo \<Rightarrow> string list \<Rightarrow> nat \<Rightarrow> real list \<Rightarrow> nat list
     \<Rightarrow> real list \<times> nat list" where
  "token_loop opts group_info [] field_tk_index best_of_field best_index =
     (best_of_field, best_index)"
| "token_loop opts group_info (token # rest) field_tk_index best_of_field best_index =
     (if length (tokens group_info) = 1
      then
        (let sc = score_map (tokens group_info ! 0) token (amap group_info) opts
         in if sc > best_of_field ! 0
            then token_loop opts group_info rest (field_tk_index + 1)
                   (best_of_field[0 := sc]) (best_index[0 := field_tk_index])
            else token_loop opts group_info rest (field_tk_index + 1)
                   best_of_field best_index)
      else
        (let scores = score_pack group_info token opts;
             r = fold (\<lambda>i (bf, bi).
                         case scores ! i of
                           Some sc \<Rightarrow>
                             if sc > bf ! i then (bf[i := sc], bi[i := field_tk_index])
                             else (bf, bi)
                         | None \<Rightarrow> (bf, bi))
                   [0..<length (tokens group_info)] (best_of_field, best_index)
         in token_loop opts group_info rest (field_tk_index + 1) (fst r) (snd r)))"

text \<open>
  The loop over the lanes of a group once the field has been read.  The state is
  \<open>field_score\<close>, \<open>last_index\<close> and the group's \<open>score_item\<close>.
\<close>

definition lane_loop ::
  "options \<Rightarrow> real list \<Rightarrow> nat list \<Rightarrow> nat \<Rightarrow> real \<times> int \<times> real list
     \<Rightarrow> real \<times> int \<times> real list" where
  "lane_loop opts best_of_field best_index nb_scores st =
     fold (\<lambda>i (field_score, last_index, best_match_this_item).
             let sc = best_of_field ! i;
                 field_score1 = field_score + sc;
                 item1 = (if sc > best_match_this_item ! i
                          then best_match_this_item[i := sc] else best_match_this_item)
             in if sc > minimum_match opts
                then (let tmp = int (best_index ! i)
                      in (if tmp > last_index then field_score1 + bonus_token_order opts
                          else field_score1,
                          tmp, item1))
                else (field_score1, last_index, item1))
       [0..<nb_scores] st"

fun group_loop ::
  "options \<Rightarrow> string list \<Rightarrow> PackInfo list \<Rightarrow> real \<Rightarrow> int
     \<Rightarrow> PackInfo list \<times> real \<times> int" where
  "group_loop opts field_tokens [] field_score last_index = ([], field_score, last_index)"
| "group_loop opts field_tokens (group_info # rest) field_score last_index =
     (let nb_scores = length (tokens group_info);
          tl = token_loop opts group_info field_tokens 0
                 (zero_cells nb_scores (score_field group_info))
                 (zero_cells nb_scores (field_pos group_info));
          best_of_field = fst tl;
          best_index = snd tl;
          ll = lane_loop opts best_of_field best_index nb_scores
                 (field_score, last_index, score_item group_info);
          group_info1 = group_info \<lparr> score_field := best_of_field, field_pos := best_index,
                                      score_item := snd (snd ll) \<rparr>;
          r = group_loop opts field_tokens rest (fst ll) (fst (snd ll))
      in (group_info1 # fst r, fst (snd r), snd (snd r)))"

definition scoreField :: "options \<Rightarrow> string list \<Rightarrow> Query \<Rightarrow> real \<times> Query" where
  "scoreField opts field_tokens q =
     (let r = group_loop opts field_tokens (tokens_groups q) 0 (- 1);
          q1 = q \<lparr> tokens_groups := fst r \<rparr>;
          field_score = fst (snd r)
      in if score_test_fused opts
         then (let fused = score_map (fused_str q1) (join_space field_tokens) (fused_map q1) opts
               in (if fused > field_score then fused else field_score,
                   if fused > fused_score q1 then q1 \<lparr> fused_score := fused \<rparr> else q1))
         else (field_score, q1))"

definition scoreFieldSingle :: "options \<Rightarrow> string list \<Rightarrow> Query \<Rightarrow> real \<times> Query" where
  "scoreFieldSingle opts field_tokens q =
     (let field_score =
            fold (\<lambda>token fs.
                    let sc = score_map (fused_str q) token (fused_map q) opts
                    in if sc > fs then sc else fs)
              field_tokens 0
      in if score_test_fused opts
         then (let fused = score_map (fused_str q) (join_space field_tokens) (fused_map q) opts
               in (if fused > field_score then fused else field_score,
                   if fused > fused_score q then q \<lparr> fused_score := fused \<rparr> else q))
         else (field_score, q))"

section \<open>Scoring the items: \<open>_searchIndex\<close>\<close>

text \<open>The score of one field, by the three ways \<open>_searchIndex\<close> chooses from.\<close>

definition field_score_of :: "options \<Rightarrow> string list \<Rightarrow> Query \<Rightarrow> real \<times> Query" where
  "field_score_of opts field_tokens q =
     (if score_per_token opts
      then (if single q then scoreFieldSingle opts field_tokens q
            else scoreField opts field_tokens q)
      else (score_map (fused_str q) (join_space field_tokens) (fused_map q) opts, q))"

text \<open>
  The loop over the fields of an item, with its \<open>break\<close>.  The state is the query,
  \<open>item_score\<close>, \<open>matched_field_index\<close> and \<open>position_bonus\<close>.
\<close>

fun field_loop ::
  "options \<Rightarrow> string list list \<Rightarrow> nat \<Rightarrow> Query \<Rightarrow> real \<Rightarrow> int \<Rightarrow> real
     \<Rightarrow> Query \<times> real \<times> int" where
  "field_loop opts [] field_index q item_score matched_field_index position_bonus =
     (q, item_score, matched_field_index)"
| "field_loop opts (f # rest) field_index q item_score matched_field_index position_bonus =
     (let r = field_score_of opts f q;
          field_score = fst r * (1 + position_bonus);
          position_bonus1 = position_bonus * bonus_position_decay opts
      in if field_score > item_score
         then (if field_score > field_good_enough opts
               then (snd r, field_score, int field_index)
               else field_loop opts rest (field_index + 1) (snd r) field_score
                      (int field_index) position_bonus1)
         else field_loop opts rest (field_index + 1) (snd r) item_score
                matched_field_index position_bonus1)"

text \<open>The score of one item, from the reset of the query's arrays to the mixing step.\<close>

definition reset_query :: "Query \<Rightarrow> Query" where
  "reset_query q =
     q \<lparr> tokens_groups :=
           map (\<lambda>g. g \<lparr> score_item := replicate (length (score_item g)) 0 \<rparr>) (tokens_groups q),
         fused_score := 0 \<rparr>"

definition query_score_of :: "Query \<Rightarrow> real" where
  "query_score_of q =
     (let query_score = fold (\<lambda>g acc. fold (\<lambda>s a. a + s) (score_item g) acc) (tokens_groups q) 0
      in if fused_score q > query_score then fused_score q else query_score)"

definition score_item_of :: "options \<Rightarrow> Query \<Rightarrow> string list list \<Rightarrow> Query \<times> real \<times> int" where
  "score_item_of opts q flds =
     (let r = field_loop opts flds 0 (reset_query q) 0 (- 1) 1;
          q1 = fst r;
          item_score = fst (snd r);
          matched_field_index = snd (snd r)
      in if score_per_token opts \<and> \<not> single q1
         then (q1, 0.5 * item_score + 0.5 * query_score_of q1, matched_field_index)
         else (q1, item_score, matched_field_index))"

text \<open>
  \<open>Math.round(item_score / score_round) * score_round\<close> is computed in floating point.
  Its value, \<open>None\<close> for \<open>NaN\<close>, is a parameter \<open>js_round\<close> of the search, applied to the
  score and to the quantum; \<open>exact_round\<close> is that value in exact arithmetic.
\<close>

definition exact_round :: "real \<Rightarrow> real \<Rightarrow> real option" where
  "exact_round item_score quantum =
     (if quantum = 0 then None
      else Some (of_int \<lfloor>item_score / quantum + 1 / 2\<rfloor> * quantum))"

text \<open>
  The loop over the items.  It returns the error raised, if any (\<open>item_fields[0]\<close> of an
  item without fields is \<open>undefined\<close>), with the threshold, the query and the results as
  they are at that point.
\<close>

fun searchIndex_loop ::
  "(real \<Rightarrow> real \<Rightarrow> real option) \<Rightarrow> options \<Rightarrow> 'a Indexed list \<Rightarrow> Query \<Rightarrow> real \<Rightarrow> real
     \<Rightarrow> 'a SearchResult list \<Rightarrow> error option \<times> real \<times> Query \<times> 'a SearchResult list" where
  "searchIndex_loop js_round opts [] q thresh best_item_score results =
     (None, thresh, q, results)"
| "searchIndex_loop js_round opts (it # rest) q thresh best_item_score results =
     (let r = score_item_of opts q (item_fields it);
          q1 = fst r;
          item_score = fst (snd r);
          matched_field_index = snd (snd r);
          new_best = (item_score > best_item_score);
          best1 = (if new_best then item_score else best_item_score);
          thresh1 = (if new_best \<and> item_score * thresh_relative_to_best opts > thresh
                     then item_score * thresh_relative_to_best opts else thresh)
      in if item_score > thresh1
         then (case item_fields it of
                 [] \<Rightarrow> (Some TypeError, thresh1, q1, results)
               | f0 # _ \<Rightarrow>
                   searchIndex_loop js_round opts rest q1 thresh1 best1
                     (results @ [\<lparr> item = item it, item_fields = item_fields it,
                                   score_of = js_round item_score (score_round opts),
                                   matchIndex = matched_field_index,
                                   sortKey = join_space f0 \<rparr>]))
         else searchIndex_loop js_round opts rest q1 thresh1 best1 results)"

definition searchIndex ::
  "(real \<Rightarrow> real \<Rightarrow> real option) \<Rightarrow> options \<Rightarrow> Query \<Rightarrow> 'a Indexed list
     \<Rightarrow> 'a SearchResult list \<Rightarrow> error option \<times> real \<times> Query \<times> 'a SearchResult list" where
  "searchIndex js_round opts q src results =
     searchIndex_loop js_round opts src q (thresh_include opts) 0 results"

section \<open>The search\<close>

definition filterGTE :: "'a SearchResult list \<Rightarrow> real \<Rightarrow> 'a SearchResult list" where
  "filterGTE array compareto =
     filter (\<lambda>obj. case score_of obj of Some s \<Rightarrow> s \<ge> compareto | None \<Rightarrow> False) array"

text \<open>Strings are compared code unit by code unit.\<close>

fun str_less :: "string \<Rightarrow> string \<Rightarrow> bool" where
  "str_less [] [] = False"
| "str_less [] (y # ys) = True"
| "str_less (x # xs) [] = False"
| "str_less (x # xs) (y # ys) =
     ((of_char x :: nat) < of_char y \<or> (x = y \<and> str_less xs ys))"

text \<open>
  \<open>compareResults\<close>; a difference that is \<open>NaN\<close> counts as \<open>0\<close> for the sort.
\<close>

definition compareResults :: "'a SearchResult \<Rightarrow> 'a SearchResult \<Rightarrow> real" where
  "compareResults a b =
     (case (score_of a, score_of b) of
        (Some sa, Some sb) \<Rightarrow>
          if sb - sa \<noteq> 0 then sb - sa
          else if str_less (sortKey b) (sortKey a) then 1
          else if str_less (sortKey a) (sortKey b) then - 1 else 0
      | _ \<Rightarrow> 0)"

text \<open>
  \<open>results.sort(sorter)\<close>, as a stable insertion sort.  With a comparator that is not an
  order the source's result is some rearrangement fixed by the engine; nothing below
  depends on more than the elements of the sorted list.
\<close>

fun insert_by :: "('r \<Rightarrow> 'r \<Rightarrow> real) \<Rightarrow> 'r \<Rightarrow> 'r list \<Rightarrow> 'r list" where
  "insert_by cmp x [] = [x]"
| "insert_by cmp x (y # ys) = (if cmp x y \<le> 0 then x # y # ys else y # insert_by cmp x ys)"

definition sort_by :: "('r \<Rightarrow> 'r \<Rightarrow> real) \<Rightarrow> 'r list \<Rightarrow> 'r list" where
  "sort_by cmp xs = foldr (insert_by cmp) xs []"

text \<open>
  \<open>output_map\<close>: the empty path or \<open>root\<close> (the result itself), \<open>root.item\<close> (the
  original item), or a function or any other path, taken as the function from a result
  to what it yields.  \<open>FuzzySearch.map\<close> and \<open>FuzzySearch.mapField\<close> both keep the first
  \<open>n\<close> results; with the empty path and no limit the source skips the step, which
  keeps them all.
\<close>

datatype ('a, 'o) output_map = MapRoot | MapItem | MapOther "'a SearchResult \<Rightarrow> 'o"

datatype ('a, 'o) out_value = OutRoot "'a SearchResult" | OutItem 'a | OutOther 'o

definition apply_output_map :: "('a, 'o) output_map \<Rightarrow> 'a SearchResult \<Rightarrow> ('a, 'o) out_value" where
  "apply_output_map om r =
     (case om of MapRoot \<Rightarrow> OutRoot r | MapItem \<Rightarrow> OutItem (item r) | MapOther f \<Rightarrow> OutOther (f r))"

definition map_output ::
  "('a, 'o) output_map \<Rightarrow> int \<Rightarrow> 'a SearchResult list \<Rightarrow> ('a, 'o) out_value list" where
  "map_output om max_out src =
     (let n = (if max_out > 0 \<and> max_out < int (length src) then nat max_out else length src)
      in map (apply_output_map om) (take n src))"

record ('a, 'o) engine =
  options_of :: options
  sorter :: "('a SearchResult \<Rightarrow> 'a SearchResult \<Rightarrow> real) option"
  output_map_of :: "('a, 'o) output_map"
  source :: "'a list"
  keys :: "string list"
  dirty :: bool
  index :: "'a Indexed list"
  query :: "Query option"
  results :: "('a, 'o) out_value list"
  start_time :: real
  search_time :: real

text \<open>
  \<open>search\<close>.  The two readings of the clock are parameters, as are the rounding of the
  scores and the extraction of the fields of an item.  The result is the error raised, or
  the list returned and the engine afterwards.
\<close>

definition search ::
  "(real \<Rightarrow> real \<Rightarrow> real option) \<Rightarrow> ('a \<Rightarrow> string list \<Rightarrow> error + string list) \<Rightarrow> real \<Rightarrow> real
     \<Rightarrow> ('a, 'o) engine \<Rightarrow> string \<Rightarrow> error + ('a, 'o) out_value list \<times> ('a, 'o) engine" where
  "search js_round gen time_start time_end e querystring =
     (let e1 = e \<lparr> start_time := time_start \<rparr>
      in case (if dirty e1
               then (case addSource gen (options_of e1) (source e1) (keys e1) of
                       Inl err \<Rightarrow> Inl err
                     | Inr idx \<Rightarrow> Inr (e1 \<lparr> index := idx, dirty := False \<rparr>))
               else Inr e1) of
           Inl err \<Rightarrow> Inl err
         | Inr e2 \<Rightarrow>
             (let q = prepQuery (options_of e2) querystring;
                  r = searchIndex js_round (options_of e2) q (index e2) [];
                  q1 = fst (snd (snd r));
                  e3 = e2 \<lparr> query := Some q1 \<rparr>
              in case fst r of
                   Some err \<Rightarrow> Inl err
                 | None \<Rightarrow>
                     (let res1 = filterGTE (snd (snd (snd r))) (fst (snd r));
                          res2 = (case sorter e3 of Some cmp \<Rightarrow> sort_by cmp res1
                                  | None \<Rightarrow> res1);
                          out = map_output (output_map_of e3) (output_limit (options_of e3)) res2
                      in Inr (out, e3 \<lparr> search_time := time_end - time_start,
                                        results := out \<rparr>))))"

section \<open>Matching query tokens to field tokens\<close>

text \<open>
  \<open>_buildScoreTree\<close> and \<open>_matchScoreGrid\<close> of \<open>src/FuzzySearch.js\<close>.  The score grid
  \<open>C\<close> is a list of rows of numbers.  The cache holds, for every depth, an object keyed
  by the mask of used columns; an entry is the pair of the best score and the index
  chosen.
\<close>

type_synonym cache_tree = "nat \<Rightarrow> int32 \<rightharpoonup> (real \<times> int)"

text \<open>\<open>score < include_thresh\<close>; false when the threshold is \<open>undefined\<close>.\<close>

definition below_thresh :: "real \<Rightarrow> real list \<Rightarrow> nat \<Rightarrow> bool" where
  "below_thresh v score_thresholds depth =
     (depth < length score_thresholds \<and> v < score_thresholds ! depth)"

text \<open>\<open>jlen\<close>: the length of the row, at most 32.\<close>

definition row_jlen :: "real list list \<Rightarrow> nat \<Rightarrow> nat" where
  "row_jlen C depth = (if depth < length C then min (length (C ! depth)) 32 else 0)"

function buildScoreTree ::
  "real list list \<Rightarrow> cache_tree \<Rightarrow> int32 \<Rightarrow> nat \<Rightarrow> real list \<Rightarrow> real \<times> cache_tree" where
  "buildScoreTree C cache_tree used_mask depth score_thresholds =
     (let ilen = length C;
          jlen = row_jlen C depth;
          has_childs = (depth + 1 < ilen);
          r = fold
                (\<lambda>j (bestscore, bestindex, ct).
                   let bit = shl 1 (int j)
                   in if used_mask AND bit \<noteq> 0 then (bestscore, bestindex, ct)
                      else if below_thresh (C ! depth ! j) score_thresholds depth
                      then (bestscore, bestindex, ct)
                      else
                        let child_key = used_mask OR bit;
                            sc = (if has_childs
                                  then (case ct (depth + 1) child_key of
                                          Some entry \<Rightarrow> (C ! depth ! j + fst entry, ct)
                                        | None \<Rightarrow>
                                            (let sub = buildScoreTree C ct child_key (depth + 1)
                                                         score_thresholds
                                             in (C ! depth ! j + fst sub, snd sub)))
                                  else (C ! depth ! j, ct))
                        in if fst sc > bestscore then (fst sc, int j, snd sc)
                           else (bestscore, bestindex, snd sc))
                [0..<jlen] (0, - 1, cache_tree);
          bestscore = fst r;
          bestindex = fst (snd r);
          ct1 = snd (snd r);
          skip = (if has_childs
                  then (case ct1 (depth + 1) used_mask of
                          Some entry \<Rightarrow> (fst entry, ct1)
                        | None \<Rightarrow> buildScoreTree C ct1 used_mask (depth + 1) score_thresholds)
                  else (bestscore, ct1));
          best = (if has_childs \<and> fst skip > bestscore then (fst skip, - 1)
                  else (bestscore, bestindex));
          ct2 = snd skip
      in (fst best, ct2(depth := (ct2 depth)(used_mask \<mapsto> best))))"
  by pat_completeness auto
termination
  by (relation "measure (\<lambda>(C, cache_tree, used_mask, depth, score_thresholds). length C - depth)")
     auto

declare buildScoreTree.simps [simp del]

text \<open>\<open>match[i] = j\<close> for \<open>i\<close> up to the length of the array.\<close>

definition set_cell :: "int list \<Rightarrow> nat \<Rightarrow> int \<Rightarrow> int list" where
  "set_cell xs i v = (if i < length xs then xs[i := v] else xs @ [v])"

text \<open>The loop of \<open>_matchScoreGrid\<close> that reads the mapping off the cache, \<open>n\<close> rows to go.\<close>

fun trace_loop :: "cache_tree \<Rightarrow> nat \<Rightarrow> nat \<Rightarrow> int32 \<Rightarrow> int list \<Rightarrow> int list" where
  "trace_loop scoretree 0 i used match = match"
| "trace_loop scoretree (Suc n) i used match =
     (case scoretree i used of
        None \<Rightarrow> match
      | Some entry \<Rightarrow>
          (let j = snd entry
           in trace_loop scoretree n (i + 1)
                (if j > - 1 then used OR shl 1 j else used) (set_cell match i j)))"

text \<open>\<open>_matchScoreGrid\<close>: with no row, \<open>C[0].length\<close> raises.\<close>

definition matchScoreGrid ::
  "real list list \<Rightarrow> int list \<Rightarrow> real list \<Rightarrow> error + (real \<times> int list)" where
  "matchScoreGrid C match thresholds =
     (if C = [] then Inl TypeError
      else (let r = buildScoreTree C (\<lambda>i. Map.empty) 0 0 thresholds
            in Inr (fst r, trace_loop (snd r) (length C) 0 0 match)))"

subsection \<open>Lanes of a packed group\<close>

text \<open>
  The bits an alphabet map gives for a code unit, and the start of the lane of the
  \<open>i\<close>-th token of a group: the tokens before it, end to end.
\<close>

definition map_bits :: "alphabet_map \<Rightarrow> char \<Rightarrow> int32" where
  "map_bits mp c = (case mp c of None \<Rightarrow> 0 | Some e \<Rightarrow> to_int32 e)"

definition bits_only :: "alphabet_map \<Rightarrow> bool" where
  "bits_only mp = (\<forall>c e. mp c = Some e \<longrightarrow> (\<exists>w. e = Bits w))"

definition total_len :: "string list \<Rightarrow> nat" where
  "total_len toks = sum_list (map length toks)"

definition lane_offset :: "string list \<Rightarrow> nat \<Rightarrow> nat" where
  "lane_offset toks i = total_len (take i toks)"

definition map_char :: "string list \<Rightarrow> alphabet_map \<Rightarrow> bool" where
  "map_char toks mp =
     (\<forall>c b. bit (map_bits mp c) b \<longleftrightarrow>
        (\<exists>i<length toks. lane_offset toks i \<le> b \<and> b < lane_offset toks i + length (toks ! i)
           \<and> toks ! i ! (b - lane_offset toks i) = c))"

definition gate_char :: "string list \<Rightarrow> int32 \<Rightarrow> bool" where
  "gate_char toks g =
     (\<forall>b. bit g b \<longleftrightarrow>
        (\<exists>i<length toks. lane_offset toks i \<le> b \<and> b + 1 < lane_offset toks i + length (toks ! i)))"

definition large_group :: "PackInfo \<Rightarrow> bool" where
  "large_group g =
     (\<exists>t. tokens g = [t] \<and> INT_SIZE \<le> length t \<and> amap g = posVector t \<and> gate g = 0xFFFFFFFF)"

definition packed_group :: "PackInfo \<Rightarrow> bool" where
  "packed_group g =
     (let toks = tokens g
      in toks \<noteq> [] \<and> (\<forall>t\<in>set toks. t \<noteq> [] \<and> length t < INT_SIZE)
         \<and> total_len toks < INT_SIZE
         \<and> bits_only (amap g) \<and> map_char toks (amap g) \<and> gate_char toks (gate g)
         \<and> (\<forall>i j. i < j \<and> j < length toks
               \<longrightarrow> lane_offset toks i + length (toks ! i) \<le> lane_offset toks j)
         \<and> (\<forall>i<length toks. \<not> bit (gate g) (lane_offset toks i + length (toks ! i) - 1)))"

definition acc_inv :: "string list \<Rightarrow> alphabet_map \<Rightarrow> int32 \<Rightarrow> nat \<Rightarrow> bool" where
  "acc_inv gt gm g off =
     (off = total_len gt \<and> off < INT_SIZE \<and> bits_only gm \<and> map_char gt gm \<and> gate_char gt g
      \<and> (\<forall>t\<in>set gt. t \<noteq> [] \<and> length t < INT_SIZE))"

definition group_ok :: "PackInfo \<Rightarrow> bool" where
  "group_ok g = (large_group g \<or> packed_group g)"

subsection \<open>Assignments of columns to rows\<close>

text \<open>
  The best total over the rows from \<open>depth\<close> on (\<open>n\<close> of them) when the columns of
  \<open>used\<close> are taken: the recursion of \<open>_buildScoreTree\<close> without its cache.  The step of
  the loop over the columns is named, to state what the loop keeps true.
\<close>

fun best_total :: "real list list \<Rightarrow> real list \<Rightarrow> nat \<Rightarrow> nat \<Rightarrow> int32 \<Rightarrow> real" where
  "best_total C thr 0 depth used = 0"
| "best_total C thr (Suc n) depth used =
     Max (set (0 # best_total C thr n (depth + 1) used #
        map (\<lambda>j. C ! depth ! j + best_total C thr n (depth + 1) (used OR shl 1 (int j)))
          (filter (\<lambda>j. used AND shl 1 (int j) = 0 \<and> \<not> below_thresh (C ! depth ! j) thr depth)
             [0..<row_jlen C depth])))"

definition col_step ::
  "real list list \<Rightarrow> real list \<Rightarrow> int32 \<Rightarrow> nat \<Rightarrow> bool \<Rightarrow> nat \<Rightarrow> real \<times> int \<times> cache_tree
     \<Rightarrow> real \<times> int \<times> cache_tree" where
  "col_step C score_thresholds used_mask depth has_childs =
                (\<lambda>j (bestscore, bestindex, ct).
                   let bit = shl 1 (int j)
                   in if used_mask AND bit \<noteq> 0 then (bestscore, bestindex, ct)
                      else if below_thresh (C ! depth ! j) score_thresholds depth
                      then (bestscore, bestindex, ct)
                      else
                        let child_key = used_mask OR bit;
                            sc = (if has_childs
                                  then (case ct (depth + 1) child_key of
                                          Some entry \<Rightarrow> (C ! depth ! j + fst entry, ct)
                                        | None \<Rightarrow>
                                            (let sub = buildScoreTree C ct child_key (depth + 1)
                                                         score_thresholds
                                             in (C ! depth ! j + fst sub, snd sub)))
                                  else (C ! depth ! j, ct))
                        in if fst sc > bestscore then (fst sc, int j, snd sc)
                           else (bestscore, bestindex, snd sc))"

definition col_ok :: "real list list \<Rightarrow> real list \<Rightarrow> int32 \<Rightarrow> nat \<Rightarrow> nat \<Rightarrow> bool" where
  "col_ok C thr used depth j =
     (used AND shl 1 (int j) = 0 \<and> \<not> below_thresh (C ! depth ! j) thr depth)"

definition cand :: "real list list \<Rightarrow> real list \<Rightarrow> int32 \<Rightarrow> nat \<Rightarrow> nat \<Rightarrow> real" where
  "cand C thr used depth j =
     C ! depth ! j
       + best_total C thr (length C - Suc depth) (Suc depth) (used OR shl 1 (int j))"

definition cands :: "real list list \<Rightarrow> real list \<Rightarrow> int32 \<Rightarrow> nat \<Rightarrow> nat \<Rightarrow> real list" where
  "cands C thr used depth k =
     map (cand C thr used depth) (filter (col_ok C thr used depth) [0..<k])"

definition entry_ok ::
  "real list list \<Rightarrow> real list \<Rightarrow> cache_tree \<Rightarrow> nat \<Rightarrow> int32 \<Rightarrow> real \<times> int \<Rightarrow> bool" where
  "entry_ok C thr ct d u e =
     (d < length C \<and> fst e = best_total C thr (length C - d) d u
      \<and> (if snd e = - 1
          then (if Suc d < length C
                then fst e = best_total C thr (length C - Suc d) (Suc d) u
                     \<and> ct (Suc d) u \<noteq> None
                else fst e = 0)
          else 0 \<le> snd e \<and> nat (snd e) < row_jlen C d \<and> col_ok C thr u d (nat (snd e))
               \<and> fst e = cand C thr u d (nat (snd e))
               \<and> (Suc d < length C \<longrightarrow> ct (Suc d) (u OR shl 1 (snd e)) \<noteq> None)))"

definition cache_ok :: "real list list \<Rightarrow> real list \<Rightarrow> cache_tree \<Rightarrow> bool" where
  "cache_ok C thr ct = (\<forall>d u e. ct d u = Some e \<longrightarrow> entry_ok C thr ct d u e)"

definition cache_le :: "cache_tree \<Rightarrow> cache_tree \<Rightarrow> bool" where
  "cache_le ct ct' = (\<forall>d u. ct d u \<noteq> None \<longrightarrow> ct' d u \<noteq> None)"

definition child_spec :: "real list list \<Rightarrow> real list \<Rightarrow> nat \<Rightarrow> cache_tree \<Rightarrow> int32 \<Rightarrow> bool" where
  "child_spec C thr d ct u =
     (let r = buildScoreTree C ct u d thr
      in fst r = best_total C thr (length C - d) d u \<and> cache_ok C thr (snd r)
         \<and> cache_le ct (snd r) \<and> snd r d u \<noteq> None)"

definition loop_inv ::
  "real list list \<Rightarrow> real list \<Rightarrow> cache_tree \<Rightarrow> int32 \<Rightarrow> nat \<Rightarrow> nat
     \<Rightarrow> real \<times> int \<times> cache_tree \<Rightarrow> bool" where
  "loop_inv C thr ct0 used depth k st =
     (case st of (best, idx, ct) \<Rightarrow>
        cache_ok C thr ct \<and> cache_le ct0 ct
        \<and> best = Max (set (0 # cands C thr used depth k))
        \<and> (if idx = - 1 then best = 0
            else 0 \<le> idx \<and> nat idx < k \<and> col_ok C thr used depth (nat idx)
                 \<and> best = cand C thr used depth (nat idx)
                 \<and> (Suc depth < length C \<longrightarrow> ct (Suc depth) (used OR shl 1 idx) \<noteq> None)))"

fun assign_ok :: "real list list \<Rightarrow> real list \<Rightarrow> nat \<Rightarrow> int32 \<Rightarrow> int list \<Rightarrow> bool" where
  "assign_ok C thr d used [] = True"
| "assign_ok C thr d used (p # ps) =
     (if p = - 1 then assign_ok C thr (Suc d) used ps
      else 0 \<le> p \<and> nat p < row_jlen C d \<and> col_ok C thr used d (nat p)
           \<and> assign_ok C thr (Suc d) (used OR shl 1 p) ps)"

fun assign_total :: "real list list \<Rightarrow> nat \<Rightarrow> int list \<Rightarrow> real" where
  "assign_total C d [] = 0"
| "assign_total C d (p # ps) =
     (if p = - 1 then 0 else C ! d ! nat p) + assign_total C (Suc d) ps"

fun trace_list :: "cache_tree \<Rightarrow> nat \<Rightarrow> nat \<Rightarrow> int32 \<Rightarrow> int list" where
  "trace_list ct 0 i used = []"
| "trace_list ct (Suc n) i used =
     (case ct i used of
        None \<Rightarrow> []
      | Some e \<Rightarrow>
          snd e # trace_list ct n (i + 1) (if snd e > - 1 then used OR shl 1 (snd e) else used))"

definition match_total :: "real list list \<Rightarrow> int list \<Rightarrow> real" where
  "match_total C asg = (\<Sum>i<length C. if asg ! i = - 1 then 0 else C ! i ! nat (asg ! i))"

definition valid_match :: "real list list \<Rightarrow> real list \<Rightarrow> int list \<Rightarrow> bool" where
  "valid_match C thr asg =
     (length asg = length C
      \<and> (\<forall>i<length C. asg ! i = - 1
            \<or> (0 \<le> asg ! i \<and> nat (asg ! i) < length (C ! i) \<and> thr ! i \<le> C ! i ! nat (asg ! i)))
      \<and> (\<forall>i<length C. \<forall>k<length C. asg ! i \<noteq> - 1 \<and> asg ! i = asg ! k \<longrightarrow> i = k))"

definition cells_ok :: "real list list \<Rightarrow> real list \<Rightarrow> nat \<Rightarrow> int32 \<Rightarrow> int list \<Rightarrow> bool" where
  "cells_ok C thr d used ps =
     (\<forall>k<length ps. ps ! k = - 1
        \<or> (0 \<le> ps ! k \<and> nat (ps ! k) < length (C ! (d + k))
            \<and> thr ! (d + k) \<le> C ! (d + k) ! nat (ps ! k) \<and> \<not> bit used (nat (ps ! k))))"

definition inj_cols :: "int list \<Rightarrow> bool" where
  "inj_cols ps = (\<forall>k<length ps. \<forall>k'<length ps. ps ! k \<noteq> - 1 \<and> ps ! k = ps ! k' \<longrightarrow> k = k')"

subsection \<open>The running threshold\<close>

text \<open>
  The run of \<open>_searchIndex\<close> in the words of its description: for every item, its
  score and the threshold once the item has been looked at.  The threshold starts at
  \<open>thresh_include\<close>; an item that beats the best score so far raises it to the greater
  of its value and \<open>thresh_relative_to_best\<close> times the score of the item.  A result is
  admitted when the score of its item exceeds that threshold, and kept by \<open>search\<close> when
  the score stored in it, which is the rounded score, is not below the last threshold.
\<close>

text \<open>The result pushed for an item.\<close>

definition result_of ::
  "(real \<Rightarrow> real \<Rightarrow> real option) \<Rightarrow> options \<Rightarrow> 'a Indexed \<Rightarrow> real \<Rightarrow> int
     \<Rightarrow> 'a SearchResult" where
  "result_of js_round opts it item_score matched_field_index =
     \<lparr> item = item it, item_fields = item_fields it,
       score_of = js_round item_score (score_round opts),
       matchIndex = matched_field_index,
       sortKey = (case item_fields it of [] \<Rightarrow> [] | f0 # _ \<Rightarrow> join_space f0) \<rparr>"

fun thresh_trace ::
  "options \<Rightarrow> 'a Indexed list \<Rightarrow> Query \<Rightarrow> real \<Rightarrow> real \<Rightarrow> ('a Indexed \<times> real \<times> int \<times> real) list" where
  "thresh_trace opts [] q thresh best = []"
| "thresh_trace opts (it # rest) q thresh best =
     (let r = score_item_of opts q (item_fields it);
          s = fst (snd r);
          thresh1 = (if s > best then max thresh (s * thresh_relative_to_best opts) else thresh)
      in (it, s, snd (snd r), thresh1) # thresh_trace opts rest (fst r) thresh1 (max best s))"

definition admitted ::
  "(real \<Rightarrow> real \<Rightarrow> real option) \<Rightarrow> options \<Rightarrow> ('a Indexed \<times> real \<times> int \<times> real) list
     \<Rightarrow> 'a SearchResult list" where
  "admitted js_round opts tr =
     map (\<lambda>(it, s, mi, t). result_of js_round opts it s mi) (filter (\<lambda>(it, s, mi, t). s > t) tr)"

definition final_thresh :: "real \<Rightarrow> ('a Indexed \<times> real \<times> int \<times> real) list \<Rightarrow> real" where
  "final_thresh thresh tr = (case rev tr of [] \<Rightarrow> thresh | (it, s, mi, t) # _ \<Rightarrow> t)"

definition kept_results ::
  "(real \<Rightarrow> real \<Rightarrow> real option) \<Rightarrow> options \<Rightarrow> 'a Indexed list \<Rightarrow> Query
     \<Rightarrow> 'a SearchResult list" where
  "kept_results js_round opts idx q =
     (let tr = thresh_trace opts idx q (thresh_include opts) 0
      in filter (\<lambda>r. case score_of r of
                        Some s \<Rightarrow> s \<ge> final_thresh (thresh_include opts) tr
                      | None \<Rightarrow> False)
           (admitted js_round opts tr))"

text \<open>The index that \<open>search\<close> reads, built first when the engine is dirty.\<close>

definition current_index ::
  "('a \<Rightarrow> string list \<Rightarrow> error + string list) \<Rightarrow> ('a, 'o) engine \<Rightarrow> error + 'a Indexed list" where
  "current_index gen e =
     (if dirty e then addSource gen (options_of e) (source e) (keys e) else Inr (index e))"

definition ranked_results ::
  "(real \<Rightarrow> real \<Rightarrow> real option) \<Rightarrow> ('a, 'o) engine \<Rightarrow> 'a Indexed list \<Rightarrow> string
     \<Rightarrow> 'a SearchResult list" where
  "ranked_results js_round e idx qs =
     (let kept = kept_results js_round (options_of e) idx (prepQuery (options_of e) qs)
      in case sorter e of Some cmp \<Rightarrow> sort_by cmp kept | None \<Rightarrow> kept)"

definition limit1_engine :: "(nat, unit) engine" where
  "limit1_engine =
     \<lparr> options_of = defaultOptions \<lparr> output_limit := 1 \<rparr>,
       sorter = Some compareResults, output_map_of = MapItem,
       source = [1, 2], keys = [], dirty = False,
       index = [\<lparr> item = 1, item_fields = [[''hello'']] \<rparr>,
                \<lparr> item = 2, item_fields = [[''hello'', ''world'']] \<rparr>],
       query = None, results = [], start_time = 0, search_time = 0 \<rparr>"

definition round_engine :: "(nat, unit) engine" where
  "round_engine =
     \<lparr> options_of = defaultOptions,
       sorter = Some compareResults, output_map_of = MapItem,
       source = [1, 2], keys = [], dirty = False,
       index = [\<lparr> item = 1, item_fields = [[''hexlozz'']] \<rparr>,
                \<lparr> item = 2, item_fields = [[''hello'']] \<rparr>],
       query = None, results = [], start_time = 0, search_time = 0 \<rparr>"
subsection \<open>The transient state of a query\<close>

text \<open>
  During the scoring of an item the fused score and the cells of \<open>score_item\<close> are not
  negative, every group having a cell per token.  Two groups, or two queries, are the same
  but for their transient fields when they agree on everything else.
\<close>

definition nonneg_query :: "Query \<Rightarrow> bool" where
  "nonneg_query q =
     (0 \<le> fused_score q
      \<and> list_all (\<lambda>g. length (tokens g) \<le> length (score_item g)
                       \<and> list_all (\<lambda>s. 0 \<le> s) (score_item g)) (tokens_groups q))"

definition same_group :: "PackInfo \<Rightarrow> PackInfo \<Rightarrow> bool" where
  "same_group g g' = (tokens g = tokens g' \<and> amap g = amap g' \<and> gate g = gate g')"

definition same_static :: "Query \<Rightarrow> Query \<Rightarrow> bool" where
  "same_static q q' =
     (normalized q = normalized q' \<and> fused_str q = fused_str q' \<and> fused_map q = fused_map q'
      \<and> single q = single q' \<and> list_all2 same_group (tokens_groups q) (tokens_groups q'))"

text \<open>
  The query as \<open>_searchIndex\<close> has it when it comes to an item: prepared from the query
  string, and then changed by the scoring of the items before, given by their fields.
\<close>

definition query_after :: "options \<Rightarrow> string \<Rightarrow> string list list list \<Rightarrow> Query" where
  "query_after opts qs Fs = fold (\<lambda>F q. fst (score_item_of opts q F)) Fs (prepQuery opts qs)"

definition arrays_ok :: "Query \<Rightarrow> bool" where
  "arrays_ok q = list_all (\<lambda>g. length (tokens g) \<le> length (score_item g)) (tokens_groups q)"

text \<open>
  A field is missing from an item when, on the way down the keys of its path and before any
  key \<open>*\<close> or empty key, a key is not a property of the object reached.
\<close>

fun path_missing :: "(jsval \<Rightarrow> string \<Rightarrow> jsval option) \<Rightarrow> jsval \<Rightarrow> string list \<Rightarrow> bool" where
  "path_missing proto obj [] = False"
| "path_missing proto obj (key # rest) =
     (key \<noteq> ''*'' \<and> key \<noteq> [] \<and> has_properties obj
      \<and> (case property proto obj key of
            None \<Rightarrow> True
          | Some v \<Rightarrow> path_missing proto v rest))"

definition lenient_engine :: "(nat, unit) engine" where
  "lenient_engine =
     \<lparr> options_of = defaultOptions \<lparr> thresh_include := - 1 \<rparr>,
       sorter = Some compareResults, output_map_of = MapItem,
       source = [1, 2], keys = [], dirty = False,
       index = [\<lparr> item = 1, item_fields = [[''hello'']] \<rparr>,
                \<lparr> item = 2, item_fields = [[''hello'', ''world'']] \<rparr>],
       query = None, results = [], start_time = 0, search_time = 0 \<rparr>"

definition null_engine :: "(jsval, unit) engine" where
  "null_engine =
     \<lparr> options_of = defaultOptions,
       sorter = Some compareResults, output_map_of = MapItem,
       source = [JObj [(''title'', JNull)]], keys = [''title''], dirty = True,
       index = [],
       query = None, results = [], start_time = 0, search_time = 0 \<rparr>"

definition book_engine :: "(jsval, unit) engine" where
  "book_engine =
     \<lparr> options_of = defaultOptions,
       sorter = Some compareResults, output_map_of = MapItem,
       source = [JObj [(''title'', JPrim ''Hello world''), (''tags'', JArr [JPrim ''a'', JPrim []])]],
       keys = [''title'', ''author.name'', ''tags''], dirty = True,
       index = [],
       query = None, results = [], start_time = 0, search_time = 0 \<rparr>"

subsection \<open>The score of an item, from the scores of its fields\<close>

text \<open>
  The arrays of a group have a cell per token, as \<open>new_PackInfo\<close> makes them.
\<close>

definition wf_group :: "PackInfo \<Rightarrow> bool" where
  "wf_group g = (length (score_item g) = length (tokens g)
                 \<and> length (score_field g) = length (tokens g)
                 \<and> length (field_pos g) = length (tokens g))"

definition wf_query :: "Query \<Rightarrow> bool" where
  "wf_query q = list_all wf_group (tokens_groups q)"

text \<open>The best of some scores; no best is below \<open>0\<close>, the value the cells start from.\<close>

definition best_of :: "real list \<Rightarrow> real" where
  "best_of xs = Max (set (0 # xs))"

text \<open>
  The score of lane \<open>i\<close> of a group against one token of a field, \<open>None\<close> when it is
  \<open>NaN\<close>, and the best of those that are numbers over the tokens of some fields.
\<close>

definition lane_score :: "options \<Rightarrow> PackInfo \<Rightarrow> nat \<Rightarrow> string \<Rightarrow> real option" where
  "lane_score opts g i token =
     (if length (tokens g) = 1 then Some (score_map (tokens g ! 0) token (amap g) opts)
      else score_pack g token opts ! i)"

definition lane_best :: "options \<Rightarrow> PackInfo \<Rightarrow> nat \<Rightarrow> string list list \<Rightarrow> real" where
  "lane_best opts g i E = best_of (List.map_filter (lane_score opts g i) (concat E))"

definition query_score_over :: "options \<Rightarrow> Query \<Rightarrow> string list list \<Rightarrow> real" where
  "query_score_over opts q E =
     (\<Sum>g\<leftarrow>tokens_groups q. \<Sum>i\<leftarrow>[0..<length (tokens g)]. lane_best opts g i E)"

definition fused_over :: "options \<Rightarrow> Query \<Rightarrow> string list list \<Rightarrow> real" where
  "fused_over opts q E =
     (if score_test_fused opts
      then best_of (map (\<lambda>f. score_map (fused_str q) (join_space f) (fused_map q) opts) E)
      else 0)"

text \<open>
  The score of a field, its score boosted by the position of the field, and the best
  boosted score of the first \<open>n\<close> fields.
\<close>

definition field_value :: "options \<Rightarrow> Query \<Rightarrow> string list \<Rightarrow> real" where
  "field_value opts q f = fst (field_score_of opts f q)"

definition boosted :: "options \<Rightarrow> Query \<Rightarrow> string list list \<Rightarrow> nat \<Rightarrow> real" where
  "boosted opts q F k = field_value opts q (F ! k) * (1 + bonus_position_decay opts ^ k)"

definition best_boosted :: "options \<Rightarrow> Query \<Rightarrow> string list list \<Rightarrow> nat \<Rightarrow> real" where
  "best_boosted opts q F n = best_of (map (boosted opts q F) [0..<n])"

text \<open>
  The loop over the fields stops after a field whose boosted score is above the best so far
  and above \<open>field_good_enough\<close>; \<open>n_evaluated\<close> is the number of fields it reads.
\<close>

definition stops_at :: "options \<Rightarrow> Query \<Rightarrow> string list list \<Rightarrow> nat \<Rightarrow> bool" where
  "stops_at opts q F k =
     (boosted opts q F k > best_boosted opts q F k
      \<and> boosted opts q F k > field_good_enough opts)"

definition n_evaluated :: "options \<Rightarrow> Query \<Rightarrow> string list list \<Rightarrow> nat" where
  "n_evaluated opts q F =
     (case find (stops_at opts q F) [0..<length F] of None \<Rightarrow> length F | Some k \<Rightarrow> Suc k)"

text \<open>The score of an item whose first \<open>n\<close> fields are taken into account.\<close>

definition mixed_score :: "options \<Rightarrow> Query \<Rightarrow> string list list \<Rightarrow> nat \<Rightarrow> real" where
  "mixed_score opts q F n =
     (if score_per_token opts \<and> \<not> single q
      then 0.5 * best_boosted opts q F n
           + 0.5 * max (query_score_over opts q (take n F)) (fused_over opts q (take n F))
      else best_boosted opts q F n)"

text \<open>The cells of \<open>score_item\<close> and the fused score once the fields \<open>E\<close> have been read.\<close>

definition item_state :: "options \<Rightarrow> Query \<Rightarrow> string list list \<Rightarrow> Query \<Rightarrow> bool" where
  "item_state opts q0 E q =
     (fused_score q = fused_over opts q0 E
      \<and> map score_item (tokens_groups q)
          = map (\<lambda>g. map (\<lambda>i. lane_best opts g i E) [0..<length (tokens g)]) (tokens_groups q0))"
section \<open>Reference notions\<close>

subsection \<open>The length of a longest common subsequence\<close>

fun llcs :: "'a list \<Rightarrow> 'a list \<Rightarrow> nat" where
  "llcs [] ys = 0"
| "llcs xs [] = 0"
| "llcs (x # xs) (y # ys) =
     (if x = y then Suc (llcs xs ys) else max (llcs (x # xs) ys) (llcs xs (y # ys)))"

fun lcp :: "'a list \<Rightarrow> 'a list \<Rightarrow> nat" where
  "lcp (x # xs) (y # ys) = (if x = y then Suc (lcp xs ys) else 0)"
| "lcp _ _ = 0"


section \<open>The parts of a query that scoring leaves alone\<close>

lemma same_group_refl: "same_group g g"
  by (simp add: same_group_def)

lemma same_group_trans: "same_group a b \<Longrightarrow> same_group b c \<Longrightarrow> same_group a c"
  by (simp add: same_group_def)

lemma same_groups_refl: "list_all2 same_group gs gs"
  by (simp add: list_all2_refl same_group_refl)

lemma same_groups_trans:
  "list_all2 same_group as bs \<Longrightarrow> list_all2 same_group bs cs \<Longrightarrow> list_all2 same_group as cs"
  by (rule list_all2_trans [of same_group same_group same_group]) (auto intro: same_group_trans)

lemma same_static_refl: "same_static q q"
  by (simp add: same_static_def same_groups_refl)

lemma same_static_trans: "same_static a b \<Longrightarrow> same_static b c \<Longrightarrow> same_static a c"
  by (auto simp: same_static_def intro: same_groups_trans)

lemma group_loop_same:
  "list_all2 same_group (fst (group_loop opts f groups fs li)) groups"
proof (induction groups arbitrary: fs li)
  case Nil
  show ?case by simp
next
  case (Cons g groups)
  have "same_group (g \<lparr> score_field := a, field_pos := b, score_item := c \<rparr>) g" for a b c
    by (simp add: same_group_def)
  then show ?case by (simp add: Let_def Cons.IH)
qed

lemma scoreField_same: "same_static (snd (scoreField opts f q)) q"
  by (simp add: scoreField_def Let_def same_static_def group_loop_same)

lemma scoreFieldSingle_same: "same_static (snd (scoreFieldSingle opts f q)) q"
  by (simp add: scoreFieldSingle_def Let_def same_static_def same_groups_refl)

lemma field_score_of_same: "same_static (snd (field_score_of opts f q)) q"
  by (simp add: field_score_of_def scoreField_same scoreFieldSingle_same same_static_refl)

lemma field_loop_same: "same_static (fst (field_loop opts F i q s mi pb)) q"
proof (induction F arbitrary: i q s mi pb)
  case Nil
  show ?case by (simp add: same_static_refl)
next
  case (Cons f F)
  have a: "same_static (snd (field_score_of opts f q)) q" by (rule field_score_of_same)
  show ?case
    using same_static_trans [OF Cons.IH a] a by (simp add: Let_def)
qed

lemma reset_query_same: "same_static (reset_query q) q"
  by (simp add: reset_query_def same_static_def list_all2_map1 same_group_def list_all2_refl)

lemma score_item_of_same: "same_static (fst (score_item_of opts q F)) q"
  using same_static_trans [OF field_loop_same reset_query_same]
  by (simp add: score_item_of_def Let_def)

section \<open>The short path of \<open>score_map\<close> and the common prefix\<close>

text \<open>
  On the short path the sweep starts at \<open>b[prefix]\<close> with the alphabet map of the whole
  of \<open>a\<close>, and the bits below \<open>prefix\<close> are masked off afterwards.  A match of a later
  character of \<open>b\<close> with a character of \<open>a\<close> inside the prefix region changes the bits
  above it, so the count can fall short of the length of a longest common subsequence.
  The long path \<open>llcs_large\<close> starts from the block \<open>[0, prefix)\<close>, and \<open>score_pack\<close>
  sweeps the whole field token; on the tokens below both give the length of a longest
  common subsequence.
\<close>

lemma common_prefix_abb_abab:
  "common_prefix ''abb'' ''abab'' 3 = 2"
  by code_simp

lemma llcs_abb_abab:
  "llcs ''abb'' ''abab'' = 3 \<and> lcp ''abb'' ''abab'' = 2"
  by code_simp

lemma llcs_surgery_gsurvey:
  "llcs_short ''surgery'' ''gsurvey'' (alphabet ''surgery'') 0 = 5
   \<and> llcs_large ''surgery'' ''gsurvey'' (posVector ''surgery'') 0 = 5
   \<and> llcs ''surgery'' ''gsurvey'' = 5"
  by code_simp

text \<open>
  C1.  The single-token scorer is to return \<open>sz * llcs(a,b)^2 + bonus_match_start * p\<close>
  for a query token of 1 to 31 code units that passes the relative size gate.  For the
  query token \<open>abb\<close> and the field token \<open>abab\<close>, under the default options, the longest
  common subsequence has length 3 and the common prefix length 2, so that value is
  \<open>29/8\<close>; \<open>score_map\<close> returns \<open>13/6\<close>, the value for a common subsequence of
  length 2.
\<close>

theorem score_map_abb_abab:
  "score_map ''abb'' ''abab'' (alphabet ''abb'') defaultOptions = 13 / 6
   \<and> sz_score (length ''abb'') (length ''abab'') * (real (llcs ''abb'' ''abab''))\<^sup>2
       + bonus_match_start defaultOptions * real (lcp ''abb'' ''abab'') = 29 / 8"
  by code_simp

text \<open>
  C2.  The short path and \<open>llcs_large\<close> are to compute the same length on the same
  tokens and the same common prefix.  For \<open>abb\<close> against \<open>abab\<close>, with the common prefix
  2 that \<open>score_map\<close> finds, the short path gives 2 and \<open>llcs_large\<close> gives 3.
\<close>

theorem llcs_short_large_abb_abab:
  "llcs_short ''abb'' ''abab'' (alphabet ''abb'') (common_prefix ''abb'' ''abab'' 3) = 2
   \<and> llcs_large ''abb'' ''abab'' (posVector ''abb'') (common_prefix ''abb'' ''abab'' 3) = 3"
  by code_simp

text \<open>
  C3.  Each lane of \<open>score_pack\<close> is to equal \<open>score_map\<close> on that token alone.  The
  tokens \<open>abb\<close> and \<open>cd\<close> are packed into one group; against the field token \<open>abab\<close>
  the packed scorer gives \<open>29/8\<close> for the first lane and \<open>score_map\<close> gives \<open>13/6\<close>.
\<close>

theorem score_pack_abb_abab:
  "map tokens (pack_tokens [''abb'', ''cd'']) = [[''abb'', ''cd'']]
   \<and> map (\<lambda>g. score_pack g ''abab'' defaultOptions) (pack_tokens [''abb'', ''cd''])
       = [[Some (29 / 8), Some 0]]
   \<and> map (\<lambda>t. score_map t ''abab'' (alphabet t) defaultOptions) [''abb'', ''cd'']
       = [13 / 6, 0]"
  by code_simp
section \<open>The invariants of \<open>pack_tokens\<close>\<close>

lemma shl_1_small: "b < 32 \<Longrightarrow> shl 1 (int b) = (push_bit b 1 :: int32)"
  by (simp add: shl_def)

lemma bit_shl_1: "b < 32 \<Longrightarrow> bit (shl 1 (int b) :: int32) k \<longleftrightarrow> k = b"
  by (auto simp: shl_1_small bit_simps)

lemma bitVector_bits:
  "b + length t \<le> 32 \<Longrightarrow> bits_only mp \<Longrightarrow>
   bits_only (bitVector t mp b) \<and>
   (\<forall>c k. bit (map_bits (bitVector t mp b) c) k \<longleftrightarrow>
      bit (map_bits mp c) k \<or> (b \<le> k \<and> k < b + length t \<and> t ! (k - b) = c))"
proof (induction t mp b rule: bitVector.induct)
  case (1 mp b)
  then show ?case by auto
next
  case (2 c cs mp b)
  let ?mp = "(case mp c of
          Some e \<Rightarrow> mp(c \<mapsto> Bits (to_int32 e OR shl 1 (int b)))
        | None \<Rightarrow> mp(c \<mapsto> Bits (shl 1 (int b))))"
  from 2 have b: "b < 32" by simp
  have bo: "bits_only ?mp"
    using "2.prems"(2) by (auto simp: bits_only_def split: option.splits)
  have step: "\<And>d k. bit (map_bits ?mp d) k \<longleftrightarrow> bit (map_bits mp d) k \<or> (k = b \<and> d = c)"
    using b by (auto simp: map_bits_def bit_simps bit_shl_1 split: option.splits)
  from 2 have "b + 1 + length cs \<le> 32" by simp
  from "2.IH" [OF this bo] have
    IH1: "bits_only (bitVector cs ?mp (b + 1))" and
    IH2: "\<And>d k. bit (map_bits (bitVector cs ?mp (b + 1)) d) k \<longleftrightarrow>
      bit (map_bits ?mp d) k \<or> (b + 1 \<le> k \<and> k < b + 1 + length cs \<and> cs ! (k - (b + 1)) = d)"
    by auto
  show ?case
  proof (intro conjI allI)
    show "bits_only (bitVector (c # cs) mp b)" using IH1 by simp
  next
    fix d k
    have "(b + 1 \<le> k \<and> k < b + 1 + length cs \<and> cs ! (k - (b + 1)) = d) \<or> (k = b \<and> d = c)
       \<longleftrightarrow> (b \<le> k \<and> k < b + length (c # cs) \<and> (c # cs) ! (k - b) = d)"
      by (cases "k = b") (auto simp: nth_Cons' )
    then show "bit (map_bits (bitVector (c # cs) mp b) d) k \<longleftrightarrow>
      bit (map_bits mp d) k \<or> (b \<le> k \<and> k < b + length (c # cs) \<and> (c # cs) ! (k - b) = d)"
      using IH2 [of d k] step [of d k] by auto
  qed
qed

lemma lane_offset_snoc:
  "i \<le> length gt \<Longrightarrow> lane_offset (gt @ [t]) i = lane_offset gt i"
  by (simp add: lane_offset_def)

lemma lane_offset_length: "lane_offset gt (length gt) = total_len gt"
  by (simp add: lane_offset_def)

lemma lane_offset_Suc:
  "i < length toks \<Longrightarrow> lane_offset toks (Suc i) = lane_offset toks i + length (toks ! i)"
  by (simp add: lane_offset_def total_len_def take_Suc_conv_app_nth)

lemma lane_offset_mono: "i \<le> j \<Longrightarrow> lane_offset toks i \<le> lane_offset toks j"
proof (induction j)
  case 0
  then show ?case by simp
next
  case (Suc j)
  show ?case
  proof (cases "i = Suc j")
    case True
    then show ?thesis by simp
  next
    case False
    with Suc have le: "lane_offset toks i \<le> lane_offset toks j" by simp
    show ?thesis
    proof (cases "j < length toks")
      case True
      with le show ?thesis by (simp add: lane_offset_Suc)
    next
      case False
      then show ?thesis using le by (simp add: lane_offset_def)
    qed
  qed
qed

lemma lanes_disjoint:
  assumes "i < j" "j < length toks"
  shows "lane_offset toks i + length (toks ! i) \<le> lane_offset toks j"
proof -
  from assms have "lane_offset toks (Suc i) = lane_offset toks i + length (toks ! i)"
    by (simp add: lane_offset_Suc)
  moreover from assms have "lane_offset toks (Suc i) \<le> lane_offset toks j"
    by (intro lane_offset_mono) simp
  ultimately show ?thesis by simp
qed

lemma ex_less_snoc:
  "(\<exists>i<length (gt @ [t]). P i) \<longleftrightarrow> (\<exists>i<length gt. P i) \<or> P (length gt)"
  by (auto simp: less_Suc_eq)

lemma map_char_snoc:
  assumes "map_char gt mp" "bits_only mp" "total_len gt + length t \<le> 32"
  shows "map_char (gt @ [t]) (bitVector t mp (total_len gt))"
    and "bits_only (bitVector t mp (total_len gt))"
proof -
  from bitVector_bits [OF assms(3) assms(2)]
  have bo: "bits_only (bitVector t mp (total_len gt))"
    and bv: "\<And>c k. bit (map_bits (bitVector t mp (total_len gt)) c) k \<longleftrightarrow>
      bit (map_bits mp c) k \<or> (total_len gt \<le> k \<and> k < total_len gt + length t \<and> t ! (k - total_len gt) = c)"
    by auto
  show "bits_only (bitVector t mp (total_len gt))" by (rule bo)
  have old: "\<And>c b. bit (map_bits mp c) b \<longleftrightarrow>
        (\<exists>i<length gt. lane_offset gt i \<le> b \<and> b < lane_offset gt i + length (gt ! i)
           \<and> gt ! i ! (b - lane_offset gt i) = c)"
    using assms(1) by (simp add: map_char_def)
  show "map_char (gt @ [t]) (bitVector t mp (total_len gt))"
    unfolding map_char_def
  proof (intro allI)
    fix c b
    have "(\<exists>i<length gt. lane_offset (gt @ [t]) i \<le> b \<and> b < lane_offset (gt @ [t]) i + length ((gt @ [t]) ! i)
           \<and> (gt @ [t]) ! i ! (b - lane_offset (gt @ [t]) i) = c)
       \<longleftrightarrow> (\<exists>i<length gt. lane_offset gt i \<le> b \<and> b < lane_offset gt i + length (gt ! i)
           \<and> gt ! i ! (b - lane_offset gt i) = c)"
      by (intro ex_cong1) (auto simp: lane_offset_snoc nth_append)
    then show "bit (map_bits (bitVector t mp (total_len gt)) c) b \<longleftrightarrow>
        (\<exists>i<length (gt @ [t]). lane_offset (gt @ [t]) i \<le> b
           \<and> b < lane_offset (gt @ [t]) i + length ((gt @ [t]) ! i)
           \<and> (gt @ [t]) ! i ! (b - lane_offset (gt @ [t]) i) = c)"
      unfolding ex_less_snoc bv old
      by (simp add: lane_offset_snoc lane_offset_length)
  qed
qed

lemma bit_gate_lane:
  assumes "1 \<le> l" "off + l \<le> 32"
  shows "bit (shl (shl 1 (int l - 1) - 1) (int off) :: int32) b \<longleftrightarrow> off \<le> b \<and> b + 1 < off + l"
proof -
  from assms have l1: "nat ((int l - 1) mod 32) = l - 1"
    by (simp add: nat_diff_distrib')
  from assms have o1: "nat (int off mod 32) = off" by simp
  have "shl 1 (int l - 1) - 1 = (mask (l - 1) :: int32)"
    by (simp add: shl_def l1 mask_eq_exp_minus_1)
  then have "shl (shl 1 (int l - 1) - 1) (int off) = (push_bit off (mask (l - 1)) :: int32)"
    by (simp add: shl_def o1)
  then show ?thesis using assms by (auto simp: bit_simps)
qed

lemma gate_char_snoc:
  assumes "gate_char gt g" "t \<noteq> []" "total_len gt + length t \<le> 32"
  shows "gate_char (gt @ [t]) (g OR shl (shl 1 (int (length t) - 1) - 1) (int (total_len gt)))"
  unfolding gate_char_def
proof (intro allI)
  fix b
  from assms(2) have l: "1 \<le> length t" by (cases t) auto
  have old: "bit g b \<longleftrightarrow>
        (\<exists>i<length gt. lane_offset gt i \<le> b \<and> b + 1 < lane_offset gt i + length (gt ! i))"
    using assms(1) by (simp add: gate_char_def)
  have "(\<exists>i<length gt. lane_offset (gt @ [t]) i \<le> b \<and> b + 1 < lane_offset (gt @ [t]) i + length ((gt @ [t]) ! i))
       \<longleftrightarrow> (\<exists>i<length gt. lane_offset gt i \<le> b \<and> b + 1 < lane_offset gt i + length (gt ! i))"
    by (intro ex_cong1) (auto simp: lane_offset_snoc nth_append)
  then show "bit (g OR shl (shl 1 (int (length t) - 1) - 1) (int (total_len gt))) b \<longleftrightarrow>
        (\<exists>i<length (gt @ [t]). lane_offset (gt @ [t]) i \<le> b
           \<and> b + 1 < lane_offset (gt @ [t]) i + length ((gt @ [t]) ! i))"
    unfolding ex_less_snoc bit_or_iff old bit_gate_lane [OF l assms(3)]
    by (simp add: lane_offset_snoc lane_offset_length)
qed

lemma acc_inv_empty: "acc_inv [] Map.empty 0 0"
  by (simp add: acc_inv_def total_len_def INT_SIZE_def bits_only_def map_char_def gate_char_def
      map_bits_def)

lemma acc_inv_snoc:
  assumes "acc_inv gt gm g off" "t \<noteq> []" "length t + off < INT_SIZE"
  shows "acc_inv (gt @ [t]) (bitVector t gm off) (g OR shl (shl 1 (int (length t) - 1) - 1) (int off))
           (off + length t)"
proof -
  from assms(1) have off: "off = total_len gt" and bo: "bits_only gm"
    and mc: "map_char gt gm" and gc: "gate_char gt g"
    and ne: "\<forall>t\<in>set gt. t \<noteq> [] \<and> length t < INT_SIZE"
    by (simp_all add: acc_inv_def)
  from assms(3) off have le: "total_len gt + length t \<le> 32"
    by (simp add: INT_SIZE_def)
  from assms(3) have lt: "length t < INT_SIZE" by simp
  show ?thesis
    unfolding acc_inv_def off
    using map_char_snoc [OF mc bo le] gate_char_snoc [OF gc assms(2) le] ne assms(2,3) lt off
    by (simp add: total_len_def)
qed

lemma top_bit_clear:
  assumes gc: "gate_char toks g" and i: "i < length toks" and ne: "toks ! i \<noteq> []"
  shows "\<not> bit g (lane_offset toks i + length (toks ! i) - 1)"
proof
  let ?b = "lane_offset toks i + length (toks ! i) - 1"
  from ne have li: "1 \<le> length (toks ! i)" by (cases "toks ! i") auto
  assume "bit g ?b"
  with gc obtain j where j: "j < length toks" "lane_offset toks j \<le> ?b"
      "?b + 1 < lane_offset toks j + length (toks ! j)"
    by (auto simp: gate_char_def)
  consider "j < i" | "j = i" | "i < j" by linarith
  then show False
  proof cases
    case 1
    from lanes_disjoint [OF 1 i] j li show False by simp
  next
    case 2
    with j li show False by simp
  next
    case 3
    from lanes_disjoint [OF 3 j(1)] j li show False by simp
  qed
qed

lemma acc_inv_packed:
  assumes "acc_inv gt gm g off" "gt \<noteq> []"
  shows "packed_group (new_PackInfo gt gm g)"
proof -
  from assms(1) have gc: "gate_char gt g" and ne: "\<forall>t\<in>set gt. t \<noteq> [] \<and> length t < INT_SIZE"
    by (simp_all add: acc_inv_def)
  have "\<forall>i<length gt. \<not> bit g (lane_offset gt i + length (gt ! i) - 1)"
    using top_bit_clear [OF gc] ne by simp
  moreover have "\<forall>i j. i < j \<and> j < length gt
               \<longrightarrow> lane_offset gt i + length (gt ! i) \<le> lane_offset gt j"
    using lanes_disjoint by blast
  ultimately show ?thesis
    using assms by (simp add: packed_group_def new_PackInfo_def acc_inv_def)
qed

lemma pack_group_inv:
  "pack_group ts gt gm off g = (gt', gm', g', large, rest, broke) \<Longrightarrow>
   acc_inv gt gm g off \<Longrightarrow> \<forall>t\<in>set ts. t \<noteq> [] \<Longrightarrow>
   (\<exists>off'. acc_inv gt' gm' g' off')
   \<and> (\<exists>used. gt' = gt @ used
         \<and> ts = used @ (case large of None \<Rightarrow> [] | Some lg \<Rightarrow> tokens lg) @ rest)
   \<and> (\<forall>lg. large = Some lg \<longrightarrow> large_group lg)
   \<and> (\<not> broke \<longrightarrow> rest = [] \<and> large = None)"
proof (induction ts gt gm off g rule: pack_group.induct)
  case (1 group_tokens group_map offset g)
  then show ?case by auto
next
  case (2 token rest0 group_tokens group_map offset g)
  show ?case
  proof (cases "length token \<ge> INT_SIZE")
    case True
    with "2.prems" show ?thesis
      by (auto simp: Let_def large_group_def new_PackInfo_def)
  next
    case False
    note small = this
    show ?thesis
    proof (cases "length token + offset \<ge> INT_SIZE")
      case True
      with small "2.prems" show ?thesis
        by (auto simp: Let_def)
    next
      case False
      from "2.prems"(3) have ne: "token \<noteq> []" by simp
      from False have lt: "length token + offset < INT_SIZE" by simp
      from small False "2.prems"(1) have eq:
        "pack_group rest0 (group_tokens @ [token]) (bitVector token group_map offset)
           (offset + length token)
           (g OR shl (shl 1 (int (length token) - 1) - 1) (int offset))
         = (gt', gm', g', large, rest, broke)"
        by (simp add: Let_def)
      from "2.prems"(3) have ne': "\<forall>t\<in>set rest0. t \<noteq> []" by simp
      from "2.IH" [OF refl small False eq acc_inv_snoc [OF "2.prems"(2) ne lt] ne']
      show ?thesis by auto
    qed
  qed
qed

lemma pack_groups_inv:
  "\<forall>t\<in>set ts. t \<noteq> [] \<Longrightarrow> list_all group_ok groups \<Longrightarrow>
   list_all group_ok (pack_groups ts groups)
   \<and> concat (map tokens (pack_groups ts groups)) = concat (map tokens groups) @ ts"
proof (induction ts groups rule: pack_groups.induct)
  case (1 ts groups)
  obtain gt gm g large rest broke where
    pg: "pack_group ts [] Map.empty 0 0 = (gt, gm, g, large, rest, broke)"
    by (metis prod_cases6)
  from pack_group_inv [OF pg acc_inv_empty "1.prems"(1)] obtain off' where
    inv: "acc_inv gt gm g off'"
    and split: "ts = gt @ (case large of None \<Rightarrow> [] | Some lg \<Rightarrow> tokens lg) @ rest"
    and lg: "\<forall>lg. large = Some lg \<longrightarrow> large_group lg"
    and nb: "\<not> broke \<longrightarrow> rest = [] \<and> large = None"
    by auto
  let ?g1 = "if length gt > 0 then groups @ [new_PackInfo gt gm g] else groups"
  let ?g2 = "case large of Some lg \<Rightarrow> ?g1 @ [lg] | None \<Rightarrow> ?g1"
  have pk: "gt \<noteq> [] \<Longrightarrow> group_ok (new_PackInfo gt gm g)"
    using acc_inv_packed [OF inv] by (simp add: group_ok_def)
  have lk: "\<And>lg. large = Some lg \<Longrightarrow> group_ok lg"
    using lg by (simp add: group_ok_def)
  have ok1: "list_all group_ok ?g1"
    using "1.prems"(2) pk by simp
  have ok2: "list_all group_ok ?g2"
    using ok1 lk by (cases large) simp_all
  have "concat (map tokens ?g2) @ rest
        = concat (map tokens groups) @ (gt @ (case large of None \<Rightarrow> [] | Some lg \<Rightarrow> tokens lg) @ rest)"
    by (cases large) (simp_all add: new_PackInfo_def)
  with split have toks2: "concat (map tokens ?g2) @ rest = concat (map tokens groups) @ ts"
    by simp
  have unfold: "pack_groups ts groups = (if broke then pack_groups rest ?g2 else ?g2)"
    by (subst pack_groups.simps) (simp add: pg Let_def split: option.splits)
  show ?case
  proof (cases broke)
    case True
    from split "1.prems"(1) have ne: "\<forall>t\<in>set rest. t \<noteq> []"
      by (metis Un_iff set_append)
    have "list_all group_ok (pack_groups rest ?g2)
          \<and> concat (map tokens (pack_groups rest ?g2)) = concat (map tokens ?g2) @ rest"
      using "1.IH" [OF refl refl refl refl refl refl refl refl refl,
          unfolded pg fst_conv snd_conv, OF True ne ok2] .
    with True unfold toks2 show ?thesis by simp
  next
    case False
    with nb have "rest = []" by simp
    with False unfold ok2 toks2 show ?thesis by simp
  qed
qed

text \<open>
  C7, as amended.  For a list of tokens none of which is empty, \<open>pack_tokens\<close> emits the
  tokens in order, in groups of two kinds.  A token of \<open>INT_SIZE = 32\<close> code units or
  more is the single token of a group with the position-vector alphabet of that token and
  the gate \<open>0xFFFFFFFF\<close>; a token of 31 code units is bit-packed.  Every other group is
  bit-packed: the lengths of its tokens add up to 31 at most; the lane of token \<open>i\<close> is
  the bit range that starts at the sum of the lengths before it, and lanes of different
  tokens do not overlap; the bit mask of a code unit has exactly the bits of the positions
  where a token has that code unit, shifted into its lane; and the gate has exactly the
  bits of every lane but its top bit, so the top bit of every lane is zero in the gate.
  The bound on the sum and the zero bits of the gate are said of the bit-packed groups
  only.  Nothing is said of a list that holds an empty token.
\<close>

theorem pack_tokens_invariants:
  assumes "\<forall>t\<in>set ts. t \<noteq> []"
  shows "list_all (\<lambda>g. large_group g \<or> packed_group g) (pack_tokens ts)
         \<and> concat (map tokens (pack_tokens ts)) = ts
         \<and> (\<forall>t\<in>set ts. INT_SIZE \<le> length t \<longrightarrow>
               (\<exists>g\<in>set (pack_tokens ts). tokens g = [t] \<and> amap g = posVector t))"
proof -
  from pack_groups_inv [OF assms, of "[]"]
  have ok: "list_all group_ok (pack_tokens ts)"
    and toks: "concat (map tokens (pack_tokens ts)) = ts"
    by (simp_all add: pack_tokens_def)
  have ok': "list_all (\<lambda>g. large_group g \<or> packed_group g) (pack_tokens ts)"
    using ok by (simp add: list_all_iff group_ok_def)
  have "\<exists>g\<in>set (pack_tokens ts). tokens g = [t] \<and> amap g = posVector t"
    if t: "t \<in> set ts" and long: "INT_SIZE \<le> length t" for t
  proof -
    from t toks have "t \<in> set (concat (map tokens (pack_tokens ts)))"
      by simp
    then obtain g where g: "g \<in> set (pack_tokens ts)" "t \<in> set (tokens g)"
      by auto
    from ok' g(1) have "large_group g \<or> packed_group g"
      by (simp add: list_all_iff)
    then show ?thesis
    proof
      assume "large_group g"
      with g show ?thesis by (auto simp: large_group_def)
    next
      assume "packed_group g"
      with g(2) long show ?thesis by (auto simp: packed_group_def Let_def)
    qed
  qed
  with ok' toks show ?thesis by blast
qed

theorem pack_tokens_invariants_witness:
  "list_all (\<lambda>g. large_group g \<or> packed_group g)
     (pack_tokens [''paint'', ''my'', ''wall'', ''pneumonoultramicroscopicsilicovolcanoconiosis''])
   \<and> map tokens (pack_tokens [''paint'', ''my'', ''wall'', ''pneumonoultramicroscopicsilicovolcanoconiosis''])
       = [[''paint'', ''my'', ''wall''], [''pneumonoultramicroscopicsilicovolcanoconiosis'']]
   \<and> map gate (pack_tokens [''paint'', ''my'', ''wall'', ''pneumonoultramicroscopicsilicovolcanoconiosis''])
       = [0x3AF, 0xFFFFFFFF]"
proof -
  have "\<forall>t\<in>set [''paint'', ''my'', ''wall'', ''pneumonoultramicroscopicsilicovolcanoconiosis'']. t \<noteq> []"
    by simp
  from pack_tokens_invariants [OF this]
  have "list_all (\<lambda>g. large_group g \<or> packed_group g)
     (pack_tokens [''paint'', ''my'', ''wall'', ''pneumonoultramicroscopicsilicovolcanoconiosis''])"
    by blast
  moreover have "map tokens (pack_tokens [''paint'', ''my'', ''wall'', ''pneumonoultramicroscopicsilicovolcanoconiosis''])
       = [[''paint'', ''my'', ''wall''], [''pneumonoultramicroscopicsilicovolcanoconiosis'']]"
    by code_simp
  moreover have "map gate (pack_tokens [''paint'', ''my'', ''wall'', ''pneumonoultramicroscopicsilicovolcanoconiosis''])
       = [0x3AF, 0xFFFFFFFF]"
    by code_simp
  ultimately show ?thesis by blast
qed

text \<open>
  C7, as stated, fails of the group of a long token: for one token of 45 code units the
  lengths of the group add up to 45 and its gate has every bit set, and for a token of 32
  code units the gate has bit 31, the top bit of its lane.  A token of 31 code units is
  packed with the bit-vector alphabet, not with the position vector.  With an empty token
  in front, the mask \<open>(1 << (l - 1)) - 1\<close> of that token is \<open>0x7FFFFFFF\<close>, and the gate
  has the top bits 1 and 3 of the lanes of the two tokens after it.
\<close>

theorem pack_tokens_counterexample:
  "map tokens (pack_tokens [''pneumonoultramicroscopicsilicovolcanoconiosis''])
     = [[''pneumonoultramicroscopicsilicovolcanoconiosis'']]
   \<and> total_len [''pneumonoultramicroscopicsilicovolcanoconiosis''] = 45
   \<and> map gate (pack_tokens [''pneumonoultramicroscopicsilicovolcanoconiosis'']) = [0xFFFFFFFF]
   \<and> map tokens (pack_tokens [''abcdefghijklmnopqrstuvwxyzabcdef''])
     = [[''abcdefghijklmnopqrstuvwxyzabcdef'']]
   \<and> total_len [''abcdefghijklmnopqrstuvwxyzabcdef''] = 32
   \<and> map (\<lambda>g. bit (gate g) 31) (pack_tokens [''abcdefghijklmnopqrstuvwxyzabcdef'']) = [True]
   \<and> length ''abcdefghijklmnopqrstuvwxyzabcde'' = 31
   \<and> map (\<lambda>g. amap g CHR ''a'') (pack_tokens [''abcdefghijklmnopqrstuvwxyzabcde''])
     = [Some (Bits 0x4000001)]
   \<and> posVector ''abcdefghijklmnopqrstuvwxyzabcde'' CHR ''a''
     = Some (Positions [Pos 0, Pos 26, PosInfinity])
   \<and> map tokens (pack_tokens [[], ''ab'', ''cd'']) = [[[], ''ab'', ''cd'']]
   \<and> map gate (pack_tokens [[], ''ab'', ''cd'']) = [0x7FFFFFFF]
   \<and> map (\<lambda>g. (bit (gate g) 1, bit (gate g) 3)) (pack_tokens [[], ''ab'', ''cd''])
     = [(True, True)]"
  by code_simp
section \<open>The assignment found by \<open>_matchScoreGrid\<close> is a best one\<close>

lemma buildScoreTree_unfold0:
  "buildScoreTree C cache_tree used_mask depth score_thresholds =
     (let ilen = length C;
          jlen = row_jlen C depth;
          has_childs = (depth + 1 < ilen);
          r = fold (col_step C score_thresholds used_mask depth has_childs)
                [0..<jlen] (0, - 1, cache_tree);
          bestscore = fst r;
          bestindex = fst (snd r);
          ct1 = snd (snd r);
          skip = (if has_childs
                  then (case ct1 (depth + 1) used_mask of
                          Some entry \<Rightarrow> (fst entry, ct1)
                        | None \<Rightarrow> buildScoreTree C ct1 used_mask (depth + 1) score_thresholds)
                  else (bestscore, ct1));
          best = (if has_childs \<and> fst skip > bestscore then (fst skip, - 1)
                  else (bestscore, bestindex));
          ct2 = snd skip
      in (fst best, ct2(depth := (ct2 depth)(used_mask \<mapsto> best))))"
  unfolding col_step_def by (rule buildScoreTree.simps)

lemma col_step_eq:
  "col_step C thr used depth hc j (bestscore, bestindex, ct) =
     (if used AND shl 1 (int j) \<noteq> 0 \<or> below_thresh (C ! depth ! j) thr depth
      then (bestscore, bestindex, ct)
      else
        let sc = (if hc
                  then (case ct (depth + 1) (used OR shl 1 (int j)) of
                          Some entry \<Rightarrow> (C ! depth ! j + fst entry, ct)
                        | None \<Rightarrow>
                            (C ! depth ! j
                               + fst (buildScoreTree C ct (used OR shl 1 (int j)) (depth + 1) thr),
                             snd (buildScoreTree C ct (used OR shl 1 (int j)) (depth + 1) thr)))
                  else (C ! depth ! j, ct))
        in if fst sc > bestscore then (fst sc, int j, snd sc)
           else (bestscore, bestindex, snd sc))"
  by (auto simp: col_step_def Let_def split: option.splits)

lemma cache_okD: "cache_ok C thr ct \<Longrightarrow> ct d u = Some e \<Longrightarrow> entry_ok C thr ct d u e"
  unfolding cache_ok_def by blast

lemma cache_le_refl: "cache_le ct ct"
  by (simp add: cache_le_def)

lemma cache_le_trans: "cache_le a b \<Longrightarrow> cache_le b c \<Longrightarrow> cache_le a c"
  by (simp add: cache_le_def)

lemma entry_ok_mono: "entry_ok C thr ct d u e \<Longrightarrow> cache_le ct ct' \<Longrightarrow> entry_ok C thr ct' d u e"
  by (auto simp: entry_ok_def cache_le_def split: if_splits)

lemma best_total_unfold:
  assumes "depth < length C"
  shows "best_total C thr (length C - depth) depth used =
     Max (set (0 # best_total C thr (length C - Suc depth) (Suc depth) used
               # cands C thr used depth (row_jlen C depth)))"
proof -
  from assms have "length C - depth = Suc (length C - Suc depth)" by simp
  then show ?thesis
    by (simp add: cands_def cand_def [abs_def] col_ok_def [abs_def])
qed

lemma best_total_nonneg: "0 \<le> best_total C thr n depth used"
  by (cases n) (simp_all add: Max_ge_iff)

lemma cands_Suc:
  "cands C thr used depth (Suc k) =
     (if col_ok C thr used depth k then cands C thr used depth k @ [cand C thr used depth k]
      else cands C thr used depth k)"
  by (simp add: cands_def)

lemma Max_snoc: "Max (set (0 # xs @ [c])) = max (Max (set (0 # xs))) (c::real)"
proof -
  have "set (0 # xs @ [c]) = insert c (set (0 # xs))" by auto
  then show ?thesis by (simp add: max.commute)
qed

lemma cand_leaf: "\<not> Suc depth < length C \<Longrightarrow> cand C thr used depth j = C ! depth ! j"
  by (simp add: cand_def)

lemma col_step_inv:
  assumes child: "Suc depth < length C \<Longrightarrow> \<forall>ct u. cache_ok C thr ct \<longrightarrow> child_spec C thr (Suc depth) ct u"
    and inv: "loop_inv C thr ct0 used depth k st"
  shows "loop_inv C thr ct0 used depth (Suc k)
           (col_step C thr used depth (Suc depth < length C) k st)"
proof -
  obtain best idx ct where st: "st = (best, idx, ct)" by (cases st) auto
  from inv have inv': "cache_ok C thr ct \<and> cache_le ct0 ct
        \<and> best = Max (set (0 # cands C thr used depth k))
        \<and> (if idx = - 1 then best = 0
            else 0 \<le> idx \<and> nat idx < k \<and> col_ok C thr used depth (nat idx)
                 \<and> best = cand C thr used depth (nat idx)
                 \<and> (Suc depth < length C \<longrightarrow> ct (Suc depth) (used OR shl 1 idx) \<noteq> None))"
    unfolding st loop_inv_def prod.case .
  then have ok: "cache_ok C thr ct" and le: "cache_le ct0 ct"
    and best: "best = Max (set (0 # cands C thr used depth k))"
    and idx: "if idx = - 1 then best = 0
            else 0 \<le> idx \<and> nat idx < k \<and> col_ok C thr used depth (nat idx)
                 \<and> best = cand C thr used depth (nat idx)
                 \<and> (Suc depth < length C \<longrightarrow> ct (Suc depth) (used OR shl 1 idx) \<noteq> None)"
    by blast+
  show ?thesis
  proof (cases "col_ok C thr used depth k")
    case False
    then have "col_step C thr used depth (Suc depth < length C) k st = st"
      by (auto simp: st col_step_eq col_ok_def)
    moreover have "loop_inv C thr ct0 used depth (Suc k) (best, idx, ct)"
      using ok le best idx False by (auto simp: loop_inv_def cands_Suc split: if_splits)
    ultimately show ?thesis by (simp add: st)
  next
    case True
    let ?key = "used OR shl 1 (int k)"
    define sc where "sc = (if Suc depth < length C
                  then (case ct (depth + 1) ?key of
                          Some entry \<Rightarrow> (C ! depth ! k + fst entry, ct)
                        | None \<Rightarrow>
                            (C ! depth ! k + fst (buildScoreTree C ct ?key (depth + 1) thr),
                             snd (buildScoreTree C ct ?key (depth + 1) thr)))
                  else (C ! depth ! k, ct))"
    have step: "col_step C thr used depth (Suc depth < length C) k st =
        (if fst sc > best then (fst sc, int k, snd sc) else (best, idx, snd sc))"
      using True by (simp add: st col_step_eq col_ok_def sc_def Let_def)
    have sc: "fst sc = cand C thr used depth k \<and> cache_ok C thr (snd sc) \<and> cache_le ct (snd sc)
        \<and> (Suc depth < length C \<longrightarrow> snd sc (Suc depth) ?key \<noteq> None)"
    proof (cases "Suc depth < length C")
      case False
      then show ?thesis using ok by (simp add: sc_def cand_leaf cache_le_refl)
    next
      case hc: True
      show ?thesis
      proof (cases "ct (Suc depth) ?key")
        case None
        from child [OF hc] ok have "child_spec C thr (Suc depth) ct ?key" by blast
        with None hc show ?thesis
          by (simp add: sc_def child_spec_def Let_def cand_def)
      next
        case (Some e)
        with ok have "entry_ok C thr ct (Suc depth) ?key e" by (rule cache_okD)
        then have "fst e = best_total C thr (length C - Suc depth) (Suc depth) ?key"
          by (simp add: entry_ok_def)
        with Some hc ok show ?thesis
          by (simp add: sc_def cand_def cache_le_refl)
      qed
    qed
    from sc le have le': "cache_le ct0 (snd sc)" by (blast intro: cache_le_trans)
    have best': "max best (fst sc) = Max (set (0 # cands C thr used depth (Suc k)))"
      using True sc best by (simp only: cands_Suc if_True Max_snoc)
    have keep: "Suc depth < length C \<longrightarrow> ct (Suc depth) (used OR shl 1 idx) \<noteq> None
        \<Longrightarrow> Suc depth < length C \<longrightarrow> snd sc (Suc depth) (used OR shl 1 idx) \<noteq> None"
      using sc by (auto simp: cache_le_def)
    show ?thesis
    proof (cases "fst sc > best")
      case gt: True
      then have "max best (fst sc) = fst sc" by simp
      with best' gt sc True le' show ?thesis
        unfolding step by (simp add: loop_inv_def)
    next
      case ngt: False
      then have "max best (fst sc) = best" by simp
      with best' ngt sc le' idx keep show ?thesis
        unfolding step by (auto simp: loop_inv_def split: if_splits)
    qed
  qed
qed

lemma col_fold_inv:
  assumes child: "Suc depth < length C \<Longrightarrow> \<forall>ct u. cache_ok C thr ct \<longrightarrow> child_spec C thr (Suc depth) ct u"
    and ok: "cache_ok C thr ct0"
  shows "loop_inv C thr ct0 used depth k
           (fold (col_step C thr used depth (Suc depth < length C)) [0..<k] (0, - 1, ct0))"
proof (induction k)
  case 0
  show ?case using ok by (simp add: loop_inv_def cache_le_refl cands_def)
next
  case (Suc k)
  from col_step_inv [OF child Suc] show ?case by simp
qed

lemma Max_cons2: "Max (set (0 # b # xs)) = max b (Max (set (0 # xs :: real list)))"
proof -
  have "set (0 # b # xs) = insert b (set (0 # xs))" by auto
  then show ?thesis by simp
qed

lemma cache_le_upd: "cache_le ct (ct(d := (ct d)(u \<mapsto> e)))"
  by (simp add: cache_le_def)

lemma buildScoreTree_unfold:
  "buildScoreTree C ct u depth thr =
     (let r = fold (col_step C thr u depth (Suc depth < length C)) [0..<row_jlen C depth]
                (0, - 1, ct);
          skip = (if Suc depth < length C
                  then (case snd (snd r) (Suc depth) u of
                          Some entry \<Rightarrow> (fst entry, snd (snd r))
                        | None \<Rightarrow> buildScoreTree C (snd (snd r)) u (Suc depth) thr)
                  else (fst r, snd (snd r)));
          best = (if Suc depth < length C \<and> fst skip > fst r then (fst skip, - 1)
                  else (fst r, fst (snd r)))
      in (fst best, (snd skip)(depth := (snd skip depth)(u \<mapsto> best))))"
  by (cases "Suc depth < length C")
     (simp_all add: buildScoreTree_unfold0 Let_def cong: option.case_cong)

lemma build_spec:
  "depth < length C \<Longrightarrow> cache_ok C thr ct \<Longrightarrow> child_spec C thr depth ct u"
proof (induction "length C - depth" arbitrary: depth ct u rule: less_induct)
  case (less depth ct u)
  note dl = less.prems(1) and ok0 = less.prems(2)
  have child: "Suc depth < length C \<Longrightarrow>
      \<forall>ct u. cache_ok C thr ct \<longrightarrow> child_spec C thr (Suc depth) ct u"
  proof (intro allI impI)
    fix ct' u'
    assume hc: "Suc depth < length C" and ok': "cache_ok C thr ct'"
    from hc have "length C - Suc depth < length C - depth" by simp
    from less.hyps [OF this hc ok'] show "child_spec C thr (Suc depth) ct' u'" .
  qed
  define r where "r = fold (col_step C thr u depth (Suc depth < length C)) [0..<row_jlen C depth]
                (0, - 1, ct)"
  obtain best idx ct1 where r: "r = (best, idx, ct1)" by (cases r) auto
  from col_fold_inv [OF child ok0, of u "row_jlen C depth"]
  have "loop_inv C thr ct u depth (row_jlen C depth) (best, idx, ct1)"
    by (simp add: r_def [symmetric] r)
  then have ok1: "cache_ok C thr ct1" and le1: "cache_le ct ct1"
    and best: "best = Max (set (0 # cands C thr u depth (row_jlen C depth)))"
    and idx: "if idx = - 1 then best = 0
            else 0 \<le> idx \<and> nat idx < row_jlen C depth \<and> col_ok C thr u depth (nat idx)
                 \<and> best = cand C thr u depth (nat idx)
                 \<and> (Suc depth < length C \<longrightarrow> ct1 (Suc depth) (u OR shl 1 idx) \<noteq> None)"
    unfolding loop_inv_def prod.case by blast+
  define skip where "skip = (if Suc depth < length C
                  then (case ct1 (Suc depth) u of
                          Some entry \<Rightarrow> (fst entry, ct1)
                        | None \<Rightarrow> buildScoreTree C ct1 u (Suc depth) thr)
                  else (best, ct1))"
  define bst where "bst = (if Suc depth < length C \<and> fst skip > best then (fst skip, - 1)
                  else (best, idx))"
  define ct3 where "ct3 = (snd skip)(depth := (snd skip depth)(u \<mapsto> bst))"
  have res: "buildScoreTree C ct u depth thr = (fst bst, ct3)"
    by (simp only: buildScoreTree_unfold [of C ct u depth thr] Let_def r_def [symmetric] r
          fst_conv snd_conv skip_def [symmetric] bst_def [symmetric] ct3_def [symmetric])
  have skip: "cache_ok C thr (snd skip) \<and> cache_le ct1 (snd skip)
      \<and> (Suc depth < length C \<longrightarrow>
            fst skip = best_total C thr (length C - Suc depth) (Suc depth) u
            \<and> snd skip (Suc depth) u \<noteq> None)"
  proof (cases "Suc depth < length C")
    case False
    then show ?thesis using ok1 by (simp add: skip_def cache_le_refl)
  next
    case hc: True
    show ?thesis
    proof (cases "ct1 (Suc depth) u")
      case None
      from child [OF hc] ok1 have "child_spec C thr (Suc depth) ct1 u" by blast
      with None hc show ?thesis by (simp add: skip_def child_spec_def Let_def)
    next
      case (Some e)
      from cache_okD [OF ok1 Some]
      have "fst e = best_total C thr (length C - Suc depth) (Suc depth) u"
        by (simp add: entry_ok_def)
      with Some hc ok1 show ?thesis by (simp add: skip_def cache_le_refl)
    qed
  qed
  have best0: "0 \<le> best" unfolding best by (simp add: Max_ge_iff)
  have val: "fst bst = best_total C thr (length C - depth) depth u"
  proof (cases "Suc depth < length C")
    case True
    with skip have "fst skip = best_total C thr (length C - Suc depth) (Suc depth) u" by simp
    then have "best_total C thr (length C - depth) depth u = max (fst skip) best"
      by (simp only: best_total_unfold [OF dl] Max_cons2 best)
    with True show ?thesis by (simp add: bst_def max_def)
  next
    case False
    then have "length C - Suc depth = 0" by simp
    then have "best_total C thr (length C - depth) depth u = max 0 best"
      by (simp only: best_total_unfold [OF dl] Max_cons2 best best_total.simps)
    with False best0 show ?thesis by (simp add: bst_def)
  qed
  have le3: "cache_le (snd skip) ct3"
    unfolding ct3_def by (rule cache_le_upd)
  have keep: "Suc depth < length C \<longrightarrow> ct1 (Suc depth) w \<noteq> None
      \<Longrightarrow> Suc depth < length C \<longrightarrow> ct3 (Suc depth) w \<noteq> None" for w
    using skip le3 by (auto simp: cache_le_def)
  have entry: "entry_ok C thr ct3 depth u bst"
  proof (cases "Suc depth < length C \<and> fst skip > best")
    case True
    then have b: "bst = (fst skip, - 1)" by (simp add: bst_def)
    from True skip le3 have "ct3 (Suc depth) u \<noteq> None" by (auto simp: cache_le_def)
    with True skip val dl show ?thesis
      by (simp add: entry_ok_def b)
  next
    case False
    then have b: "bst = (best, idx)" by (simp add: bst_def)
    show ?thesis
    proof (cases "idx = - 1")
      case i: True
      with idx have b0: "best = 0" by simp
      show ?thesis
      proof (cases "Suc depth < length C")
        case hc: True
        with False have "fst skip \<le> 0" by (simp add: b0)
        moreover from hc skip have fs: "fst skip = best_total C thr (length C - Suc depth) (Suc depth) u"
          by simp
        ultimately have "best_total C thr (length C - Suc depth) (Suc depth) u = 0"
          using best_total_nonneg [of C thr "length C - Suc depth" "Suc depth" u] by simp
        moreover from hc skip le3 have "ct3 (Suc depth) u \<noteq> None" by (auto simp: cache_le_def)
        ultimately show ?thesis using val dl hc i b0
          by (simp add: entry_ok_def b)
      next
        case nhc: False
        with val dl i b0 show ?thesis by (simp add: entry_ok_def b)
      qed
    next
      case ni: False
      with idx keep [of "u OR shl 1 idx"] val dl show ?thesis
        by (simp add: entry_ok_def b)
    qed
  qed
  have ok3: "cache_ok C thr ct3"
    unfolding cache_ok_def
  proof (intro allI impI)
    fix d w e
    assume e: "ct3 d w = Some e"
    show "entry_ok C thr ct3 d w e"
    proof (cases "d = depth \<and> w = u")
      case True
      with e have "e = bst" by (simp add: ct3_def)
      with True entry show ?thesis by simp
    next
      case False
      with e have "snd skip d w = Some e" by (auto simp: ct3_def split: if_splits)
      with skip have "entry_ok C thr (snd skip) d w e" by (blast intro: cache_okD)
      then show ?thesis using le3 by (rule entry_ok_mono)
    qed
  qed
  have "cache_le ct ct3"
    using le1 skip le3 by (blast intro: cache_le_trans)
  moreover have "ct3 depth u \<noteq> None" by (simp add: ct3_def)
  ultimately show ?case
    using val ok3 by (simp add: child_spec_def res)
qed

lemma assign_upper:
  "assign_ok C thr d used ps \<Longrightarrow> d + length ps = length C \<Longrightarrow>
   assign_total C d ps \<le> best_total C thr (length C - d) d used"
proof (induction ps arbitrary: d used)
  case Nil
  then show ?case by simp
next
  case (Cons p ps)
  from Cons.prems(2) have dl: "d < length C" and len: "Suc d + length ps = length C" by simp_all
  let ?M = "set (0 # best_total C thr (length C - Suc d) (Suc d) used
               # cands C thr used d (row_jlen C d))"
  have bt: "best_total C thr (length C - d) d used = Max ?M"
    by (rule best_total_unfold [OF dl])
  show ?case
  proof (cases "p = - 1")
    case True
    with Cons.prems(1) have "assign_ok C thr (Suc d) used ps" by simp
    from Cons.IH [OF this len]
    have "assign_total C (Suc d) ps \<le> best_total C thr (length C - Suc d) (Suc d) used" .
    moreover have "best_total C thr (length C - Suc d) (Suc d) used \<le> Max ?M"
      by (rule Max_ge) simp_all
    ultimately show ?thesis using True bt by simp
  next
    case False
    with Cons.prems(1) have p: "0 \<le> p" "nat p < row_jlen C d" "col_ok C thr used d (nat p)"
      and rest: "assign_ok C thr (Suc d) (used OR shl 1 p) ps"
      by simp_all
    from Cons.IH [OF rest len]
    have "assign_total C (Suc d) ps
        \<le> best_total C thr (length C - Suc d) (Suc d) (used OR shl 1 p)" .
    then have "assign_total C d (p # ps) \<le> cand C thr used d (nat p)"
      using False p(1) by (simp add: cand_def)
    moreover have "cand C thr used d (nat p) \<in> ?M"
      using p by (simp add: cands_def)
    then have "cand C thr used d (nat p) \<le> Max ?M"
      by (intro Max_ge) simp_all
    ultimately show ?thesis using bt by simp
  qed
qed

lemma trace_list_ok:
  "cache_ok C thr ct \<Longrightarrow> ct d u = Some e \<Longrightarrow> d + n = length C \<Longrightarrow>
   length (trace_list ct n d u) = n \<and> assign_ok C thr d u (trace_list ct n d u)
   \<and> assign_total C d (trace_list ct n d u) = fst e"
proof (induction n arbitrary: d u e)
  case 0
  from cache_okD [OF "0.prems"(1,2)] "0.prems"(3) show ?case
    by (simp add: entry_ok_def)
next
  case (Suc n)
  note ok = Suc.prems(1)
  from cache_okD [OF ok Suc.prems(2)] have e: "entry_ok C thr ct d u e" .
  from Suc.prems(3) have len: "Suc d + n = length C" by simp
  show ?case
  proof (cases "snd e = - 1")
    case True
    show ?thesis
    proof (cases "Suc d < length C")
      case hc: True
      with e True obtain e' where e': "ct (Suc d) u = Some e'"
        and fe: "fst e = best_total C thr (length C - Suc d) (Suc d) u"
        by (auto simp: entry_ok_def)
      from cache_okD [OF ok e'] have "fst e' = fst e" by (simp add: entry_ok_def fe)
      with Suc.IH [OF ok e' len] True Suc.prems(2) show ?thesis by simp
    next
      case False
      with len have "n = 0" by simp
      with e True False Suc.prems(2) show ?thesis by (simp add: entry_ok_def)
    qed
  next
    case False
    with e have idx: "0 \<le> snd e" "nat (snd e) < row_jlen C d" "col_ok C thr u d (nat (snd e))"
      and fe: "fst e = cand C thr u d (nat (snd e))"
      and ch: "Suc d < length C \<longrightarrow> ct (Suc d) (u OR shl 1 (snd e)) \<noteq> None"
      by (simp_all add: entry_ok_def)
    from idx(1) have gt: "snd e > - 1" by simp
    show ?thesis
    proof (cases "Suc d < length C")
      case hc: True
      with ch obtain e' where e': "ct (Suc d) (u OR shl 1 (snd e)) = Some e'" by auto
      from cache_okD [OF ok e']
      have "fst e' = best_total C thr (length C - Suc d) (Suc d) (u OR shl 1 (snd e))"
        by (simp add: entry_ok_def)
      with fe idx(1) have "fst e = C ! d ! nat (snd e) + fst e'" by (simp add: cand_def)
      with Suc.IH [OF ok e' len] False idx gt Suc.prems(2) show ?thesis by simp
    next
      case nhc: False
      with len have "n = 0" by simp
      with fe nhc False idx gt Suc.prems(2) show ?thesis by (simp add: cand_leaf)
    qed
  qed
qed

lemma trace_loop_eq:
  "i \<le> length match \<Longrightarrow>
   trace_loop ct n i used match =
     take i match @ trace_list ct n i used @ drop (i + length (trace_list ct n i used)) match"
proof (induction n arbitrary: i used match)
  case 0
  then show ?case by simp
next
  case (Suc n)
  show ?case
  proof (cases "ct i used")
    case None
    then show ?thesis by simp
  next
    case (Some e)
    let ?u = "if snd e > - 1 then used OR shl 1 (snd e) else used"
    let ?m = "set_cell match i (snd e)"
    from Suc.prems have il: "i + 1 \<le> length ?m" by (simp add: set_cell_def)
    have tk: "take (i + 1) ?m = take i match @ [snd e]"
      using Suc.prems by (auto simp: set_cell_def take_Suc_conv_app_nth)
    have dr: "drop (i + 1 + k) ?m = drop (i + 1 + k) match" for k
      using Suc.prems by (auto simp: set_cell_def)
    from Suc.IH [OF il, of ?u] tk dr Some show ?thesis
      by (simp add: Let_def add.assoc)
  qed
qed

lemma assign_total_sum:
  "assign_total C d ps = (\<Sum>k<length ps. if ps ! k = - 1 then 0 else C ! (d + k) ! nat (ps ! k))"
proof (induction ps arbitrary: d)
  case Nil
  show ?case by simp
next
  case (Cons p ps)
  have "(\<Sum>k<length (p # ps). if (p # ps) ! k = - 1 then 0 else C ! (d + k) ! nat ((p # ps) ! k))
      = (if p = - 1 then 0 else C ! d ! nat p)
        + (\<Sum>k<length ps. if ps ! k = - 1 then 0 else C ! (Suc d + k) ! nat (ps ! k))"
    by (simp add: sum.lessThan_Suc_shift del: sum.lessThan_Suc cong: if_cong)
  then show ?case by (simp only: assign_total.simps Cons.IH)
qed

lemma shl_1_nonneg: "0 \<le> p \<Longrightarrow> nat p < 32 \<Longrightarrow> shl 1 p = (2 ^ nat p :: int32)"
proof -
  assume "0 \<le> p" "nat p < 32"
  then have "nat (p mod 32) = nat p" by simp
  then show ?thesis by (simp add: shl_def)
qed

lemma and_shl_1: "0 \<le> p \<Longrightarrow> nat p < 32 \<Longrightarrow> (used AND shl 1 p = 0) \<longleftrightarrow> \<not> bit used (nat p)"
  by (simp add: shl_1_nonneg and_exp_eq_0_iff_not_bit)

lemma bit_or_shl_1:
  "0 \<le> p \<Longrightarrow> nat p < 32 \<Longrightarrow> bit (used OR shl 1 p) q \<longleftrightarrow> bit used q \<or> q = nat p"
  by (auto simp: shl_1_nonneg bit_simps)

lemma all_less_Suc_shift: "(\<forall>k<Suc n. P k) \<longleftrightarrow> P 0 \<and> (\<forall>k<n. P (Suc k))"
  by (metis less_Suc_eq_0_disj)

lemma cells_ok_Cons:
  "cells_ok C thr d used (p # ps) \<longleftrightarrow>
     (p = - 1 \<or> (0 \<le> p \<and> nat p < length (C ! d) \<and> thr ! d \<le> C ! d ! nat p \<and> \<not> bit used (nat p)))
     \<and> cells_ok C thr (Suc d) used ps"
  by (simp add: cells_ok_def all_less_Suc_shift)

lemma inj_cols_Cons:
  "inj_cols (p # ps) \<longleftrightarrow> (p \<noteq> - 1 \<longrightarrow> p \<notin> set ps) \<and> inj_cols ps"
proof
  assume h: "inj_cols (p # ps)"
  have "p \<notin> set ps" if "p \<noteq> - 1"
  proof
    assume "p \<in> set ps"
    then obtain k where k: "k < length ps" "ps ! k = p" by (auto simp: in_set_conv_nth)
    from h [unfolded inj_cols_def, rule_format, of 0 "Suc k"] that k show False by simp
  qed
  moreover have "inj_cols ps"
    unfolding inj_cols_def
  proof (intro allI impI)
    fix k k'
    assume "k < length ps" "k' < length ps" "ps ! k \<noteq> - 1 \<and> ps ! k = ps ! k'"
    with h [unfolded inj_cols_def, rule_format, of "Suc k" "Suc k'"] show "k = k'" by simp
  qed
  ultimately show "(p \<noteq> - 1 \<longrightarrow> p \<notin> set ps) \<and> inj_cols ps" by blast
next
  assume h: "(p \<noteq> - 1 \<longrightarrow> p \<notin> set ps) \<and> inj_cols ps"
  show "inj_cols (p # ps)"
    unfolding inj_cols_def
  proof (intro allI impI)
    fix k k'
    assume k: "k < length (p # ps)" and k': "k' < length (p # ps)"
      and eq: "(p # ps) ! k \<noteq> - 1 \<and> (p # ps) ! k = (p # ps) ! k'"
    show "k = k'"
    proof (cases k)
      case 0
      show ?thesis
      proof (cases k')
        case 0
        with \<open>k = 0\<close> show ?thesis by simp
      next
        case (Suc j)
        with \<open>k = 0\<close> eq k' h have False by (auto simp: in_set_conv_nth)
        then show ?thesis ..
      qed
    next
      case (Suc i)
      show ?thesis
      proof (cases k')
        case 0
        with Suc eq k h have False by (auto simp: in_set_conv_nth)
        then show ?thesis ..
      next
        case (Suc j)
        with \<open>k = Suc i\<close> eq k k' h show ?thesis by (auto simp: inj_cols_def)
      qed
    qed
  qed
qed

lemma cells_ok_or:
  assumes "0 \<le> p" "nat p < 32"
  shows "cells_ok C thr d (used OR shl 1 p) ps \<longleftrightarrow> cells_ok C thr d used ps \<and> p \<notin> set ps"
proof -
  have "(ps ! k = - 1 \<or> (0 \<le> ps ! k \<and> nat (ps ! k) < length (C ! (d + k))
            \<and> thr ! (d + k) \<le> C ! (d + k) ! nat (ps ! k)
            \<and> \<not> bit (used OR shl 1 p) (nat (ps ! k))))
     \<longleftrightarrow> (ps ! k = - 1 \<or> (0 \<le> ps ! k \<and> nat (ps ! k) < length (C ! (d + k))
            \<and> thr ! (d + k) \<le> C ! (d + k) ! nat (ps ! k)
            \<and> \<not> bit used (nat (ps ! k)))) \<and> ps ! k \<noteq> p" for k
    using assms by (auto simp: bit_or_shl_1)
  then have "cells_ok C thr d (used OR shl 1 p) ps \<longleftrightarrow>
      cells_ok C thr d used ps \<and> (\<forall>k<length ps. ps ! k \<noteq> p)"
    unfolding cells_ok_def by blast
  also have "(\<forall>k<length ps. ps ! k \<noteq> p) \<longleftrightarrow> p \<notin> set ps"
    by (auto simp: in_set_conv_nth)
  finally show ?thesis .
qed

lemma assign_ok_iff:
  assumes rows: "\<forall>row\<in>set C. length row \<le> 32" and thr: "length thr = length C"
  shows "d + length ps = length C \<Longrightarrow>
     assign_ok C thr d used ps \<longleftrightarrow> cells_ok C thr d used ps \<and> inj_cols ps"
proof (induction ps arbitrary: d used)
  case Nil
  show ?case by (simp add: cells_ok_def inj_cols_def)
next
  case (Cons p ps)
  from Cons.prems have dl: "d < length C" and len: "Suc d + length ps = length C" by simp_all
  from dl rows have r32: "length (C ! d) \<le> 32" by simp
  then have jl: "row_jlen C d = length (C ! d)" using dl by (simp add: row_jlen_def)
  have bt: "below_thresh v thr d \<longleftrightarrow> v < thr ! d" for v
    using dl thr by (simp add: below_thresh_def)
  show ?case
  proof (cases "p = - 1")
    case True
    then show ?thesis
      by (simp add: Cons.IH [OF len] cells_ok_Cons inj_cols_Cons)
  next
    case False
    have "assign_ok C thr d used (p # ps) \<longleftrightarrow>
        0 \<le> p \<and> nat p < length (C ! d) \<and> col_ok C thr used d (nat p)
        \<and> cells_ok C thr (Suc d) (used OR shl 1 p) ps \<and> inj_cols ps"
      using False by (simp add: Cons.IH [OF len] jl)
    also have "\<dots> \<longleftrightarrow> 0 \<le> p \<and> nat p < length (C ! d) \<and> thr ! d \<le> C ! d ! nat p
        \<and> \<not> bit used (nat p)
        \<and> cells_ok C thr (Suc d) used ps \<and> p \<notin> set ps \<and> inj_cols ps"
    proof (cases "0 \<le> p \<and> nat p < length (C ! d)")
      case True
      with r32 have p32: "0 \<le> p" "nat p < 32" by simp_all
      show ?thesis
        using p32 by (auto simp: col_ok_def bt and_shl_1 cells_ok_or)
    next
      case False
      then show ?thesis by blast
    qed
    finally show ?thesis
      using False by (auto simp: cells_ok_Cons inj_cols_Cons)
  qed
qed

lemma valid_match_iff:
  assumes "\<forall>row\<in>set C. length row \<le> 32" "length thr = length C" "length asg = length C"
  shows "valid_match C thr asg \<longleftrightarrow> assign_ok C thr 0 0 asg"
proof -
  from assms(3) have "0 + length asg = length C" by simp
  from assign_ok_iff [OF assms(1,2) this, of 0]
  show ?thesis using assms(3) by (simp add: valid_match_def cells_ok_def inj_cols_def)
qed

lemma match_total_assign: "length asg = length C \<Longrightarrow> match_total C asg = assign_total C 0 asg"
  by (simp add: match_total_def assign_total_sum cong: if_cong)

lemma cache_ok_empty: "cache_ok C thr (\<lambda>i. Map.empty)"
  by (simp add: cache_ok_def)

text \<open>
  C4.  For a score grid with at least one row, every row of at most 32 columns, and one
  threshold per row, \<open>_matchScoreGrid\<close> returns a score and fills the first cells of
  \<open>match\<close>, one per row, with a mapping that gives every row a column or \<open>-1\<close>, no
  column to two rows, and only pairs whose score is not below the threshold of the row;
  the total of the mapping is the score returned, and no mapping of that kind has a
  greater total.  (Grids of at most 8 rows and 8 columns are among these.  A grid
  without rows does not reach \<open>_matchScoreGrid\<close>: \<open>matchTokens\<close> returns before.)
\<close>

theorem matchScoreGrid_optimal:
  assumes "C \<noteq> []" "length thresholds = length C" "\<forall>row\<in>set C. length row \<le> 32"
  shows "\<exists>sc m. matchScoreGrid C match thresholds = Inr (sc, m)
      \<and> valid_match C thresholds (take (length C) m)
      \<and> match_total C (take (length C) m) = sc
      \<and> (\<forall>asg. valid_match C thresholds asg \<longrightarrow> match_total C asg \<le> sc)"
proof -
  let ?r = "buildScoreTree C (\<lambda>i. Map.empty) 0 0 thresholds"
  let ?m = "trace_loop (snd ?r) (length C) 0 0 match"
  let ?t = "trace_list (snd ?r) (length C) 0 0"
  from assms(1) have l0: "0 < length C" by simp
  from build_spec [OF l0 cache_ok_empty, of thresholds 0]
  have sc: "fst ?r = best_total C thresholds (length C) 0 0"
    and ok: "cache_ok C thresholds (snd ?r)"
    and df: "snd ?r 0 0 \<noteq> None"
    by (simp_all add: child_spec_def Let_def)
  from df obtain e where e: "snd ?r 0 0 = Some e" by auto
  from cache_okD [OF ok e] sc have fe: "fst e = fst ?r" by (simp add: entry_ok_def)
  from trace_list_ok [OF ok e, of "length C"]
  have tl: "length ?t = length C" and ta: "assign_ok C thresholds 0 0 ?t"
    and tt: "assign_total C 0 ?t = fst ?r"
    by (simp_all add: fe)
  have "?m = ?t @ drop (length ?t) match"
    using trace_loop_eq [of 0 match "snd ?r" "length C" 0] by simp
  then have tk: "take (length C) ?m = ?t" using tl by simp
  have res: "matchScoreGrid C match thresholds = Inr (fst ?r, ?m)"
    using assms(1) by (simp add: matchScoreGrid_def Let_def)
  have v: "valid_match C thresholds ?t"
    using valid_match_iff [OF assms(3,2) tl] ta by simp
  have t: "match_total C ?t = fst ?r"
    using match_total_assign [OF tl] tt by simp
  have ub: "match_total C asg \<le> fst ?r" if "valid_match C thresholds asg" for asg
  proof -
    from that have len: "length asg = length C" by (simp add: valid_match_def)
    with that have "assign_ok C thresholds 0 0 asg"
      using valid_match_iff [OF assms(3,2) len] by simp
    from assign_upper [OF this] len have "assign_total C 0 asg \<le> fst ?r"
      by (simp add: sc)
    with match_total_assign [OF len] show ?thesis by simp
  qed
  from res v t ub tk show ?thesis by auto
qed

theorem matchScoreGrid_optimal_witness:
  "matchScoreGrid [[3, 1], [4, 0]] [- 1, - 1] [1, 1] = Inr (5, [1, 0])
   \<and> valid_match [[3, 1], [4, 0]] [1, 1] [1, 0]
   \<and> match_total [[3, 1], [4, 0]] [1, 0] = 5
   \<and> match_total [[3, 1], [4, 0]] [0, - 1] \<le> 5"
proof -
  have h1: "[[3, 1], [4, 0]] \<noteq> ([] :: real list list)" by simp
  have h2: "length [1, 1 :: real] = length [[3, 1], [4, 0 :: real]]" by simp
  have h3: "\<forall>row\<in>set [[3, 1], [4, 0 :: real]]. length row \<le> 32" by simp
  from matchScoreGrid_optimal [OF h1 h2 h3, of "[- 1, - 1]"]
  obtain sc m where r: "matchScoreGrid [[3, 1], [4, 0]] [- 1, - 1] [1, 1] = Inr (sc, m)"
    and v: "valid_match [[3, 1], [4, 0]] [1, 1] (take (length [[3, 1], [4, 0 :: real]]) m)"
    and t: "match_total [[3, 1], [4, 0]] (take (length [[3, 1], [4, 0 :: real]]) m) = sc"
    and ub: "\<forall>asg. valid_match [[3, 1], [4, 0]] [1, 1] asg \<longrightarrow> match_total [[3, 1], [4, 0]] asg \<le> sc"
    by blast
  have ev: "matchScoreGrid [[3, 1], [4, 0]] [- 1, - 1] [1, 1] = Inr (5, [1, 0])"
    by code_simp
  with r have sc: "sc = 5" and m: "m = [1, 0]" by simp_all
  have "valid_match [[3, 1], [4, 0]] [1, 1] [0, - 1]"
    by (simp add: valid_match_def less_Suc_eq)
  with ub have "match_total [[3, 1], [4, 0]] [0, - 1] \<le> sc" by blast
  with ev v t sc m show ?thesis by simp
qed

section \<open>Which items \<open>search\<close> returns\<close>

lemma final_thresh_Cons:
  "final_thresh thresh ((it, s, mi, t) # tr) = final_thresh t tr"
  by (cases "rev tr") (auto simp: final_thresh_def split: list.splits prod.splits)

lemma searchIndex_loop_Cons:
  "searchIndex_loop js_round opts (it # rest) q thresh best res0 =
     (let r = score_item_of opts q (item_fields it);
          s = fst (snd r);
          t = (if s > best then max thresh (s * thresh_relative_to_best opts) else thresh)
      in if s > t
         then (case item_fields it of
                 [] \<Rightarrow> (Some TypeError, t, fst r, res0)
               | f0 # fs \<Rightarrow>
                   searchIndex_loop js_round opts rest (fst r) t (max best s)
                     (res0 @ [result_of js_round opts it s (snd (snd r))]))
         else searchIndex_loop js_round opts rest (fst r) t (max best s) res0)"
proof -
  let ?s = "fst (snd (score_item_of opts q (item_fields it)))"
  have t1: "(if ?s > best \<and> ?s * thresh_relative_to_best opts > thresh
             then ?s * thresh_relative_to_best opts else thresh)
            = (if ?s > best then max thresh (?s * thresh_relative_to_best opts) else thresh)"
    by (simp add: max_def)
  have b1: "(if ?s > best then ?s else best) = max best ?s"
    by (simp add: max_def)
  show ?thesis
    unfolding searchIndex_loop.simps Let_def t1 b1 result_of_def
    by (cases "item_fields it") simp_all
qed

lemma searchIndex_loop_admits:
  "searchIndex_loop js_round opts idx q thresh best res0 = (None, thr', q', res') \<Longrightarrow>
   res' = res0 @ admitted js_round opts (thresh_trace opts idx q thresh best)
   \<and> thr' = final_thresh thresh (thresh_trace opts idx q thresh best)"
proof (induction idx arbitrary: q thresh best res0)
  case Nil
  then show ?case by (simp add: admitted_def final_thresh_def)
next
  case (Cons it rest)
  let ?r = "score_item_of opts q (item_fields it)"
  let ?s = "fst (snd ?r)"
  let ?t = "if ?s > best then max thresh (?s * thresh_relative_to_best opts) else thresh"
  have tr: "thresh_trace opts (it # rest) q thresh best =
      (it, ?s, snd (snd ?r), ?t) # thresh_trace opts rest (fst ?r) ?t (max best ?s)"
    by (simp add: Let_def)
  note step = Cons.prems [unfolded searchIndex_loop_Cons Let_def]
  show ?case
  proof (cases "?s > ?t")
    case True
    show ?thesis
    proof (cases "item_fields it")
      case Nil
      with True step show ?thesis by simp
    next
      case (Cons f0 fs)
      with True step have
        "searchIndex_loop js_round opts rest (fst ?r) ?t (max best ?s)
           (res0 @ [result_of js_round opts it ?s (snd (snd ?r))]) = (None, thr', q', res')"
        by simp
      from Cons.IH [OF this] True show ?thesis
        unfolding tr by (simp add: admitted_def final_thresh_Cons)
    qed
  next
    case False
    with step have
      "searchIndex_loop js_round opts rest (fst ?r) ?t (max best ?s) res0 = (None, thr', q', res')"
      by simp
    from Cons.IH [OF this] False show ?thesis
      unfolding tr by (simp add: admitted_def final_thresh_Cons)
  qed
qed

lemma set_insert_by: "set (insert_by cmp x ys) = insert x (set ys)"
  by (induction ys) auto

lemma length_insert_by: "length (insert_by cmp x ys) = Suc (length ys)"
  by (induction ys) auto

lemma set_sort_by: "set (sort_by cmp xs) = set xs"
  by (induction xs) (simp_all add: sort_by_def set_insert_by)

lemma length_sort_by: "length (sort_by cmp xs) = length xs"
  by (induction xs) (simp_all add: sort_by_def length_insert_by)

lemma search_Inr:
  assumes "search js_round gen t0 t1 e qs = Inr (out, e')"
  shows "\<exists>idx. current_index gen e = Inr idx
           \<and> out = map_output (output_map_of e) (output_limit (options_of e))
                   (ranked_results js_round e idx qs)"
proof -
  from assms obtain idx where idx: "current_index gen e = Inr idx"
    by (cases "current_index gen e")
       (auto simp: search_def Let_def current_index_def split: if_splits sum.splits)
  let ?q = "prepQuery (options_of e) qs"
  let ?r = "searchIndex js_round (options_of e) ?q idx []"
  from assms idx have f: "fst ?r = None"
    by (auto simp: search_def Let_def current_index_def split: option.splits if_splits sum.splits)
  then have "searchIndex_loop js_round (options_of e) idx ?q (thresh_include (options_of e)) 0 []
      = (None, fst (snd ?r), fst (snd (snd ?r)), snd (snd (snd ?r)))"
    by (simp add: searchIndex_def prod_eq_iff)
  from searchIndex_loop_admits [OF this]
  have "filterGTE (snd (snd (snd ?r))) (fst (snd ?r))
        = kept_results js_round (options_of e) idx ?q"
    by (simp add: filterGTE_def kept_results_def Let_def)
  with assms f idx have
    "out = map_output (output_map_of e) (output_limit (options_of e))
             (ranked_results js_round e idx qs)"
    by (auto simp: search_def Let_def current_index_def ranked_results_def
        split: option.splits if_splits sum.splits)
  with idx show ?thesis by blast
qed


lemma limit1_trace:
  "map (\<lambda>(it, s, mi, t). (item it, s, t))
     (thresh_trace (options_of limit1_engine) (index limit1_engine)
        (prepQuery (options_of limit1_engine) ''hello'')
        (thresh_include (options_of limit1_engine)) 0)
   = [(1, 15, 15 / 2), (2, 15, 15 / 2)]"
  by code_simp

lemma limit1_kept:
  "map (\<lambda>r. (item r, score_of r))
     (kept_results exact_round (options_of limit1_engine) (index limit1_engine)
        (prepQuery (options_of limit1_engine) ''hello''))
   = [(1, Some 15), (2, Some 15)]"
  by code_simp

lemma limit1_out:
  "map_sum id fst (search exact_round (\<lambda>it ks. Inr []) 0 1 limit1_engine ''hello'')
   = Inr [OutItem 1]"
  by code_simp

lemma round_trace:
  "map (\<lambda>(it, s, mi, t). (item it, s, t))
     (thresh_trace (options_of round_engine) (index round_engine)
        (prepQuery (options_of round_engine) ''hello'')
        (thresh_include (options_of round_engine)) 0)
   = [(1, 262 / 35, 131 / 35), (2, 15, 15 / 2)]"
  by code_simp

lemma round_out:
  "map_sum id fst (search exact_round (\<lambda>it ks. Inr []) 0 1 round_engine ''hello'')
   = Inr [OutItem 2, OutItem 1]"
  by code_simp

lemma round_stored:
  "exact_round (262 / 35) (score_round (options_of round_engine)) = Some (15 / 2)"
  by code_simp


section \<open>The empty query, empty fields and missing fields\<close>

subsection \<open>The empty query\<close>

lemma score_map_empty_query: "score_map [] b aMap opts = 0"
  by (simp add: score_map_def Let_def)

lemma score_map_empty_field: "score_map a [] aMap opts = 0"
  by (simp add: score_map_def Let_def)

lemma fold_zero_scores:
  "fold (\<lambda>token fs. if fs < 0 then 0 else fs) f (0::real) = 0"
  by (induction f) simp_all

lemma field_score_of_empty_query:
  assumes "fused_str q = []" "single q" "0 \<le> fused_score q"
  shows "field_score_of opts f q = (0, q)"
  using assms
  by (simp add: field_score_of_def scoreFieldSingle_def fold_zero_scores score_map_empty_query Let_def)

lemma field_loop_empty_query:
  assumes "fused_str q = []" "single q" "0 \<le> fused_score q"
  shows "field_loop opts F i q 0 mi pb = (q, 0, mi)"
proof (induction F arbitrary: i pb)
  case Nil
  show ?case by simp
next
  case (Cons f F)
  show ?case
    by (simp add: field_score_of_empty_query [OF assms] Cons.IH)
qed

lemma score_item_of_empty_query:
  assumes "fused_str q = []" "single q"
  shows "score_item_of opts q F = (reset_query q, 0, - 1)"
proof -
  have "fused_str (reset_query q) = []" "single (reset_query q)" "0 \<le> fused_score (reset_query q)"
    using assms by (simp_all add: reset_query_def)
  from field_loop_empty_query [OF this] show ?thesis
    using assms by (simp add: score_item_of_def Let_def reset_query_def)
qed

lemma searchIndex_loop_empty_query:
  assumes "fused_str q = []" "single q" "0 \<le> thresh"
  shows "\<exists>q'. searchIndex_loop js_round opts idx q thresh 0 res0 = (None, thresh, q', res0)"
  using assms
proof (induction idx arbitrary: q)
  case Nil
  show ?case by simp
next
  case (Cons it rest)
  have "fused_str (reset_query q) = []" "single (reset_query q)"
    using Cons.prems by (simp_all add: reset_query_def)
  from Cons.IH [OF this Cons.prems(3)]
  show ?case
    using Cons.prems
    by (simp add: searchIndex_loop_Cons score_item_of_empty_query Let_def)
qed

lemma prepQuery_empty:
  assumes "normalize qs = []"
  shows "fused_str (prepQuery opts qs) = [] \<and> single (prepQuery opts qs)"
  using assms by (simp add: prepQuery_def Let_def)

lemma searchIndex_empty_query:
  assumes "0 \<le> thresh_include opts" "normalize qs = []"
  shows "\<exists>q'. searchIndex js_round opts (prepQuery opts qs) idx []
             = (None, thresh_include opts, q', [])"
proof -
  from prepQuery_empty [OF assms(2), of opts]
  have q: "fused_str (prepQuery opts qs) = []" "single (prepQuery opts qs)" by simp_all
  from searchIndex_loop_empty_query [OF q assms(1)]
  show ?thesis by (simp add: searchIndex_def)
qed

lemma search_empty_query:
  assumes "0 \<le> thresh_include (options_of e)" "normalize qs = []"
  shows "case search js_round gen t0 t1 e qs of
           Inl err \<Rightarrow> dirty e \<and> addSource gen (options_of e) (source e) (keys e) = Inl err
         | Inr (out, e') \<Rightarrow> out = []"
proof (cases "dirty e")
  case False
  from searchIndex_empty_query [OF assms, of js_round "index e"]
  obtain q' where "searchIndex js_round (options_of e) (prepQuery (options_of e) qs) (index e) []
      = (None, thresh_include (options_of e), q', [])"
    by blast
  with False show ?thesis
    by (simp add: search_def Let_def filterGTE_def sort_by_def map_output_def
        split: option.splits)
next
  case True
  show ?thesis
  proof (cases "addSource gen (options_of e) (source e) (keys e)")
    case (Inl err)
    with True show ?thesis by (simp add: search_def Let_def)
  next
    case (Inr idx)
    from searchIndex_empty_query [OF assms, of js_round idx]
    obtain q' where "searchIndex js_round (options_of e) (prepQuery (options_of e) qs) idx []
        = (None, thresh_include (options_of e), q', [])"
      by blast
    with True Inr show ?thesis
      by (simp add: search_def Let_def filterGTE_def sort_by_def map_output_def
          split: option.splits)
  qed
qed

subsection \<open>A field without tokens, or with one empty token\<close>

lemma zero_cells_nth: "i < n \<Longrightarrow> zero_cells n xs ! i = 0"
  by (simp add: zero_cells_def nth_append)

lemma zero_cells_length: "n \<le> length (zero_cells n xs)"
  by (simp add: zero_cells_def)

lemma lane_loop_zero:
  assumes z: "\<forall>i<n. bof ! i = 0" and mm: "0 \<le> minimum_match opts"
    and nn: "\<forall>i<n. 0 \<le> itm ! i"
  shows "lane_loop opts bof bidx n (fs, li, itm) = (fs, li, itm)"
proof -
  have "k \<le> n \<Longrightarrow>
      fold (\<lambda>i (field_score, last_index, best_match_this_item).
             let sc = bof ! i;
                 field_score1 = field_score + sc;
                 item1 = (if sc > best_match_this_item ! i
                          then best_match_this_item[i := sc] else best_match_this_item)
             in if sc > minimum_match opts
                then (let tmp = int (bidx ! i)
                      in (if tmp > last_index then field_score1 + bonus_token_order opts
                          else field_score1,
                          tmp, item1))
                else (field_score1, last_index, item1))
       [0..<k] (fs, li, itm) = (fs, li, itm)" for k
  proof (induction k)
    case 0
    show ?case by simp
  next
    case (Suc k)
    then have "bof ! k = 0" "0 \<le> itm ! k" using z nn by simp_all
    with Suc mm show ?case by (simp add: Let_def)
  qed
  then show ?thesis by (simp add: lane_loop_def)
qed

lemma group_loop_empty_field:
  assumes mm: "0 \<le> minimum_match opts"
    and nn: "list_all (\<lambda>g. length (tokens g) \<le> length (score_item g)
                       \<and> list_all (\<lambda>s. 0 \<le> s) (score_item g)) groups"
  shows "snd (group_loop opts [] groups fs li) = (fs, li)
       \<and> map score_item (fst (group_loop opts [] groups fs li)) = map score_item groups"
  using nn
proof (induction groups arbitrary: fs li)
  case Nil
  show ?case by simp
next
  case (Cons g groups)
  let ?n = "length (tokens g)"
  from Cons.prems have len: "?n \<le> length (score_item g)"
    and pos: "list_all (\<lambda>s. 0 \<le> s) (score_item g)"
    and rest: "list_all (\<lambda>g. length (tokens g) \<le> length (score_item g)
                       \<and> list_all (\<lambda>s. 0 \<le> s) (score_item g)) groups"
    by simp_all
  have nn: "\<forall>i<?n. 0 \<le> score_item g ! i"
    using len pos by (simp add: list_all_length)
  have z: "\<forall>i<?n. zero_cells ?n (score_field g) ! i = (0::real)"
    by (simp add: zero_cells_nth)
  have ll: "lane_loop opts (zero_cells ?n (score_field g)) (zero_cells ?n (field_pos g)) ?n
              (fs, li, score_item g) = (fs, li, score_item g)"
    by (rule lane_loop_zero [OF z mm nn])
  from Cons.IH [OF rest, of fs li] show ?case
    by (simp add: Let_def ll prod_eq_iff)
qed

lemma field_score_of_empty_field:
  assumes mm: "0 \<le> minimum_match opts" and nn: "nonneg_query q"
  shows "fst (field_score_of opts [] q) = 0
       \<and> fused_score (snd (field_score_of opts [] q)) = fused_score q
       \<and> map score_item (tokens_groups (snd (field_score_of opts [] q)))
           = map score_item (tokens_groups q)"
proof -
  from nn have f: "0 \<le> fused_score q"
    and g: "list_all (\<lambda>g. length (tokens g) \<le> length (score_item g)
                       \<and> list_all (\<lambda>s. 0 \<le> s) (score_item g)) (tokens_groups q)"
    by (simp_all add: nonneg_query_def)
  from group_loop_empty_field [OF mm g, of 0 "- 1"]
  have gl: "fst (snd (group_loop opts [] (tokens_groups q) 0 (- 1))) = 0"
    "map score_item (fst (group_loop opts [] (tokens_groups q) 0 (- 1)))
       = map score_item (tokens_groups q)"
    by simp_all
  show ?thesis
    using f gl
    by (simp add: field_score_of_def scoreField_def scoreFieldSingle_def Let_def
        score_map_empty_field)
qed

text \<open>Against the empty field token every lane of a group scores \<open>0\<close> or \<open>NaN\<close>.\<close>

lemma score_lanes_empty_token:
  "length (score_lanes opts [] S toks off) = length toks
   \<and> list_all (\<lambda>s. s = None \<or> s = Some 0) (score_lanes opts [] S toks off)"
  by (induction toks arbitrary: off) (simp_all add: Let_def)

lemma lane_fold_empty_token:
  assumes "\<forall>i<n. (scores ! i = None \<or> scores ! i = Some 0) \<and> bf ! i = (0::real)"
  shows "fold (\<lambda>i (bf, bi). case scores ! i of
                 Some sc \<Rightarrow> if sc > bf ! i then (bf[i := sc], bi[i := j]) else (bf, bi)
               | None \<Rightarrow> (bf, bi))
           [0..<n] (bf, bi) = (bf, bi)"
  using assms
proof (induction n)
  case 0
  show ?case by simp
next
  case (Suc n)
  then have "scores ! n = None \<or> scores ! n = Some 0" "bf ! n = 0" by simp_all
  with Suc show ?case by auto
qed

lemma token_loop_empty_token:
  assumes z: "\<forall>i<length (tokens g). bf ! i = 0"
  shows "token_loop opts g [[]] j bf bi = (bf, bi)"
proof (cases "length (tokens g) = 1")
  case True
  with z have "bf ! 0 = 0" by simp
  with True show ?thesis by (simp add: score_map_empty_field)
next
  case False
  have sc: "\<forall>i<length (tokens g).
      score_pack g [] opts ! i = None \<or> score_pack g [] opts ! i = Some 0"
    using score_lanes_empty_token [of opts "NOT (0xFFFFFFFF)" "tokens g" 0]
    by (simp add: score_pack_def list_all_length)
  from z sc have "\<forall>i<length (tokens g).
      (score_pack g [] opts ! i = None \<or> score_pack g [] opts ! i = Some 0) \<and> bf ! i = 0"
    by simp
  from lane_fold_empty_token [OF this] False show ?thesis
    by (simp add: Let_def)
qed

lemma group_loop_empty_token:
  "group_loop opts [[]] groups fs li = group_loop opts [] groups fs li"
proof (induction groups arbitrary: fs li)
  case Nil
  show ?case by simp
next
  case (Cons g groups)
  have "token_loop opts g [[]] 0 (zero_cells (length (tokens g)) (score_field g))
          (zero_cells (length (tokens g)) (field_pos g))
        = (zero_cells (length (tokens g)) (score_field g),
           zero_cells (length (tokens g)) (field_pos g))"
    by (rule token_loop_empty_token) (simp add: zero_cells_nth)
  with Cons.IH show ?case by (simp add: Let_def)
qed

lemma field_score_of_empty_token: "field_score_of opts [[]] q = field_score_of opts [] q"
  by (simp add: field_score_of_def scoreField_def scoreFieldSingle_def Let_def
      group_loop_empty_token score_map_empty_field)

subsection \<open>The transient scores are never negative\<close>

lemma lane_loop_nonneg:
  assumes "n \<le> length itm" "list_all (\<lambda>s. 0 \<le> s) itm"
  shows "length (snd (snd (lane_loop opts bf bi n (fs, li, itm)))) = length itm
       \<and> list_all (\<lambda>s. 0 \<le> s) (snd (snd (lane_loop opts bf bi n (fs, li, itm))))"
proof -
  let ?f = "\<lambda>i (field_score, last_index, best_match_this_item).
             let sc = bf ! i;
                 field_score1 = field_score + sc;
                 item1 = (if sc > best_match_this_item ! i
                          then best_match_this_item[i := sc] else best_match_this_item)
             in if sc > minimum_match opts
                then (let tmp = int (bi ! i)
                      in (if tmp > last_index then field_score1 + bonus_token_order opts
                          else field_score1,
                          tmp, item1))
                else (field_score1, last_index, item1)"
  have "k \<le> n \<Longrightarrow>
      length (snd (snd (fold ?f [0..<k] (fs, li, itm)))) = length itm
      \<and> list_all (\<lambda>s. 0 \<le> s) (snd (snd (fold ?f [0..<k] (fs, li, itm))))" for k
  proof (induction k)
    case 0
    with assms show ?case by simp
  next
    case (Suc k)
    obtain a b c where st: "fold ?f [0..<k] (fs, li, itm) = (a, b, c)"
      by (cases "fold ?f [0..<k] (fs, li, itm)") auto
    from Suc st have c: "length c = length itm" "list_all (\<lambda>s. 0 \<le> s) c"
      by simp_all
    from Suc.prems assms(1) c(1) have k: "k < length c" by simp
    with c(2) have ck: "0 \<le> c ! k" by (simp add: list_all_length)
    have upd: "bf ! k > c ! k \<Longrightarrow> list_all (\<lambda>s. 0 \<le> s) (c[k := bf ! k])"
    proof -
      assume "bf ! k > c ! k"
      with ck have "0 \<le> bf ! k" by simp
      with c(2) k show ?thesis
        by (simp add: list_all_length nth_list_update)
    qed
    have "snd (snd (?f k (a, b, c))) = (if bf ! k > c ! k then c[k := bf ! k] else c)"
      by (simp add: Let_def)
    with c upd st show ?case by simp
  qed
  from this [of n] show ?thesis by (simp add: lane_loop_def)
qed

lemma group_loop_nonneg:
  assumes "list_all (\<lambda>g. length (tokens g) \<le> length (score_item g)
                       \<and> list_all (\<lambda>s. 0 \<le> s) (score_item g)) groups"
  shows "list_all (\<lambda>g. length (tokens g) \<le> length (score_item g)
                       \<and> list_all (\<lambda>s. 0 \<le> s) (score_item g))
           (fst (group_loop opts f groups fs li))"
  using assms
proof (induction groups arbitrary: fs li)
  case Nil
  show ?case by simp
next
  case (Cons g groups)
  let ?n = "length (tokens g)"
  from Cons.prems have len: "?n \<le> length (score_item g)"
    and pos: "list_all (\<lambda>s. 0 \<le> s) (score_item g)"
    and rest: "list_all (\<lambda>g. length (tokens g) \<le> length (score_item g)
                       \<and> list_all (\<lambda>s. 0 \<le> s) (score_item g)) groups"
    by simp_all
  note ll = lane_loop_nonneg [OF len pos]
  from Cons.IH [OF rest] ll len show ?case
    by (simp add: Let_def)
qed

lemma field_score_of_nonneg:
  assumes "nonneg_query q"
  shows "nonneg_query (snd (field_score_of opts f q))"
proof -
  from assms have f: "0 \<le> fused_score q"
    and g: "list_all (\<lambda>g. length (tokens g) \<le> length (score_item g)
                       \<and> list_all (\<lambda>s. 0 \<le> s) (score_item g)) (tokens_groups q)"
    by (simp_all add: nonneg_query_def)
  note gl = group_loop_nonneg [OF g, of opts f 0 "- 1"]
  show ?thesis
    using f g gl
    by (auto simp: field_score_of_def scoreField_def scoreFieldSingle_def Let_def
        nonneg_query_def)
qed

lemma field_loop_nonneg:
  "nonneg_query q \<Longrightarrow> nonneg_query (fst (field_loop opts F i q s mi pb))"
proof (induction F arbitrary: i q s mi pb)
  case Nil
  then show ?case by simp
next
  case (Cons f F)
  note n1 = field_score_of_nonneg [OF Cons.prems, of opts f]
  show ?case
    using n1 Cons.IH [OF n1]
    by (simp add: Let_def)
qed

lemma nonneg_arrays_ok: "nonneg_query q \<Longrightarrow> arrays_ok q"
  by (simp add: nonneg_query_def arrays_ok_def list_all_iff)

lemma reset_query_nonneg: "arrays_ok q \<Longrightarrow> nonneg_query (reset_query q)"
  by (simp add: nonneg_query_def arrays_ok_def reset_query_def list_all_iff)

lemma score_item_of_arrays_ok: "arrays_ok q \<Longrightarrow> arrays_ok (fst (score_item_of opts q F))"
proof -
  assume "arrays_ok q"
  then have "nonneg_query (reset_query q)" by (rule reset_query_nonneg)
  then have "nonneg_query (fst (field_loop opts F 0 (reset_query q) 0 (- 1) 1))"
    by (rule field_loop_nonneg)
  then show ?thesis
    by (simp add: score_item_of_def Let_def nonneg_arrays_ok)
qed

lemma pack_group_large:
  "pack_group ts gt gm off g = (gt', gm', g', Some lg, rest, broke) \<Longrightarrow>
   \<exists>t. lg = new_PackInfo [t] (posVector t) 0xFFFFFFFF"
  by (induction ts gt gm off g rule: pack_group.induct)
     (auto simp: Let_def split: if_splits)

lemma pack_groups_new:
  assumes "\<And>gt gm g. P (new_PackInfo gt gm g)"
  shows "list_all P groups \<Longrightarrow> list_all P (pack_groups ts groups)"
proof (induction ts groups rule: pack_groups.induct)
  case (1 ts groups)
  obtain gt gm g large rest broke where
    pg: "pack_group ts [] Map.empty 0 0 = (gt, gm, g, large, rest, broke)"
    by (metis prod_cases6)
  let ?g1 = "if length gt > 0 then groups @ [new_PackInfo gt gm g] else groups"
  let ?g2 = "case large of Some lg \<Rightarrow> ?g1 @ [lg] | None \<Rightarrow> ?g1"
  have ok1: "list_all P ?g1"
    using "1.prems" assms by simp
  have lk: "\<And>lg. large = Some lg \<Longrightarrow> P lg"
    using pack_group_large pg assms by blast
  have ok2: "list_all P ?g2"
    using ok1 lk by (cases large) simp_all
  have unfold: "pack_groups ts groups = (if broke then pack_groups rest ?g2 else ?g2)"
    by (subst pack_groups.simps) (simp add: pg Let_def split: option.splits)
  show ?case
  proof (cases broke)
    case True
    have "list_all P (pack_groups rest ?g2)"
      using "1.IH" [OF refl refl refl refl refl refl refl refl refl,
          unfolded pg fst_conv snd_conv, OF True ok2] .
    with True unfold show ?thesis by simp
  next
    case False
    with unfold ok2 show ?thesis by simp
  qed
qed

lemma prepQuery_arrays_ok: "arrays_ok (prepQuery opts qs)"
proof -
  have "list_all (\<lambda>g. length (tokens g) \<le> length (score_item g)) (pack_tokens ts)" for ts
    unfolding pack_tokens_def
    by (rule pack_groups_new) (simp_all add: new_PackInfo_def)
  then show ?thesis
    by (simp add: arrays_ok_def prepQuery_def Let_def)
qed

lemma fold_arrays_ok:
  "arrays_ok q \<Longrightarrow> arrays_ok (fold (\<lambda>F q. fst (score_item_of opts q F)) Fs q)"
  by (induction Fs arbitrary: q) (simp_all add: score_item_of_arrays_ok)

lemma query_after_arrays_ok: "arrays_ok (query_after opts qs Fs)"
  unfolding query_after_def by (rule fold_arrays_ok) (rule prepQuery_arrays_ok)

subsection \<open>The loop over the fields with an empty field at the end\<close>

lemma field_loop_append_empty:
  assumes mm: "0 \<le> minimum_match opts" and ef: "fe = [] \<or> fe = [[]]"
  shows "nonneg_query q \<Longrightarrow> 0 \<le> s \<Longrightarrow>
     fst (snd (field_loop opts (F @ [fe]) i q s mi pb)) = fst (snd (field_loop opts F i q s mi pb))
     \<and> snd (snd (field_loop opts (F @ [fe]) i q s mi pb)) = snd (snd (field_loop opts F i q s mi pb))
     \<and> fused_score (fst (field_loop opts (F @ [fe]) i q s mi pb))
         = fused_score (fst (field_loop opts F i q s mi pb))
     \<and> map score_item (tokens_groups (fst (field_loop opts (F @ [fe]) i q s mi pb)))
         = map score_item (tokens_groups (fst (field_loop opts F i q s mi pb)))"
proof (induction F arbitrary: i q s mi pb)
  case Nil
  from ef have e: "field_score_of opts fe q = field_score_of opts [] q"
    by (auto simp: field_score_of_empty_token)
  from field_score_of_empty_field [OF mm Nil.prems(1)] e
  have z: "fst (field_score_of opts fe q) = 0"
    and f: "fused_score (snd (field_score_of opts fe q)) = fused_score q"
    and c: "map score_item (tokens_groups (snd (field_score_of opts fe q)))
              = map score_item (tokens_groups q)"
    by simp_all
  from z Nil.prems(2) f c show ?case
    by (simp add: Let_def)
next
  case (Cons f F)
  let ?r = "field_score_of opts f q"
  let ?fs = "fst ?r * (1 + pb)"
  note n1 = field_score_of_nonneg [OF Cons.prems(1), of opts f]
  show ?case
  proof (cases "?fs > s")
    case True
    with Cons.prems(2) have p: "0 \<le> ?fs" by simp
    show ?thesis
    proof (cases "?fs > field_good_enough opts")
      case True
      with \<open>?fs > s\<close> show ?thesis by (simp add: Let_def)
    next
      case False
      with \<open>?fs > s\<close> Cons.IH [OF n1 p] show ?thesis by (simp add: Let_def)
    qed
  next
    case False
    with Cons.IH [OF n1 Cons.prems(2)] show ?thesis by (simp add: Let_def)
  qed
qed

lemma query_score_of_cong:
  assumes "map score_item (tokens_groups q) = map score_item (tokens_groups q')"
    and "fused_score q = fused_score q'"
  shows "query_score_of q = query_score_of q'"
proof -
  have x: "fold (\<lambda>g acc. fold (\<lambda>s a. a + s) (score_item g) acc) gs a
        = fold (\<lambda>xs acc. fold (\<lambda>s a. a + s) xs acc) (map score_item gs) (a::real)" for gs a
    by (induction gs arbitrary: a) simp_all
  have "fold (\<lambda>g acc. fold (\<lambda>s a. a + s) (score_item g) acc) (tokens_groups q) 0
        = fold (\<lambda>g acc. fold (\<lambda>s a. a + s) (score_item g) acc) (tokens_groups q') 0"
    unfolding x assms(1) ..
  with assms(2) show ?thesis
    by (simp add: query_score_of_def Let_def)
qed

lemma score_item_of_append_empty:
  assumes mm: "0 \<le> minimum_match opts" and ef: "fe = [] \<or> fe = [[]]" and ok: "arrays_ok q"
  shows "snd (score_item_of opts q (F @ [fe])) = snd (score_item_of opts q F)
       \<and> fused_score (fst (score_item_of opts q (F @ [fe])))
           = fused_score (fst (score_item_of opts q F))
       \<and> map score_item (tokens_groups (fst (score_item_of opts q (F @ [fe]))))
           = map score_item (tokens_groups (fst (score_item_of opts q F)))"
proof -
  let ?r1 = "field_loop opts (F @ [fe]) 0 (reset_query q) 0 (- 1) 1"
  let ?r0 = "field_loop opts F 0 (reset_query q) 0 (- 1) 1"
  from field_loop_append_empty [OF mm ef reset_query_nonneg [OF ok], of 0 F 0 "- 1" 1]
  have a: "fst (snd ?r1) = fst (snd ?r0)" and b: "snd (snd ?r1) = snd (snd ?r0)"
    and c: "fused_score (fst ?r1) = fused_score (fst ?r0)"
    and d: "map score_item (tokens_groups (fst ?r1)) = map score_item (tokens_groups (fst ?r0))"
    by simp_all
  have "same_static (fst ?r1) (reset_query q)" "same_static (fst ?r0) (reset_query q)"
    by (rule field_loop_same)+
  then have sg: "single (fst ?r1) = single (fst ?r0)"
    by (simp add: same_static_def)
  note qs = query_score_of_cong [OF d c]
  from a b c d sg qs show ?thesis
    by (simp add: score_item_of_def Let_def prod_eq_iff)
qed

subsection \<open>A missing field\<close>

lemma descend_missing:
  "level \<le> length parts \<Longrightarrow> path_missing proto obj (drop level parts) \<Longrightarrow>
   descend proto parts obj level = Inr None"
proof (induction proto parts obj level rule: descend.induct)
  case (1 proto parts obj level)
  from "1.prems"(2) have "drop level parts \<noteq> []" by auto
  then have lt: "level < length parts" by simp
  then have d: "drop level parts = parts ! level # drop (Suc level) parts"
    by (simp add: Cons_nth_drop_Suc)
  from "1.prems"(2) [unfolded d]
  have nk: "\<not> (parts ! level = ''*'' \<or> parts ! level = [])"
    and hp: "has_properties obj"
    and c: "case property proto obj (parts ! level) of
              None \<Rightarrow> True | Some v \<Rightarrow> path_missing proto v (drop (Suc level) parts)"
    by simp_all
  show ?case
  proof (cases "property proto obj (parts ! level)")
    case None
    with lt nk hp show ?thesis by (simp add: descend.simps)
  next
    case (Some v)
    with c have m: "path_missing proto v (drop (Suc level) parts)" by simp
    from lt have l: "level + 1 \<le> length parts" by simp
    from m have m': "path_missing proto v (drop (level + 1) parts)" by simp
    from "1.IH" [OF lt refl nk _ Some l m'] hp
    have "descend proto parts v (level + 1) = Inr None" by simp
    with lt nk hp Some show ?thesis by (simp add: descend.simps)
  qed
qed

lemma collectValues_missing:
  "path_missing proto obj parts \<Longrightarrow> collectValues proto parts obj lst 0 = Inr lst"
  using descend_missing [of 0 parts proto obj]
  by (simp add: collectValues.simps)

lemma collectKeys_missing:
  "path_missing proto obj (split_dot k) \<Longrightarrow>
   collectKeys proto obj (ks1 @ k # ks2) lst = collectKeys proto obj (ks1 @ ks2) lst"
proof (induction ks1 arbitrary: lst)
  case Nil
  then show ?case by (simp add: collectValues_missing)
next
  case (Cons a ks1)
  then show ?case by (simp split: sum.splits)
qed

lemma generateFields_missing:
  assumes "path_missing proto obj (split_dot k)"
  shows "generateFields proto obj (ks1 @ k # ks2)
         = (if ks1 @ ks2 = [] then Inr [] else generateFields proto obj (ks1 @ ks2))"
proof (cases "ks1 @ ks2 = []")
  case True
  then have "ks1 = []" "ks2 = []" by simp_all
  then show ?thesis
    by (simp add: generateFields_def collectValues_missing [OF assms])
next
  case False
  then show ?thesis
    by (auto simp: generateFields_def collectKeys_missing [OF assms])
qed

lemma lenient_out:
  "map_sum id fst (search exact_round (\<lambda>it ks. Inr []) 0 1 lenient_engine [])
   = Inr [OutItem 1, OutItem 2]"
  by code_simp

lemma negative_minimum_match:
  "snd (score_item_of (defaultOptions \<lparr> minimum_match := - 1 \<rparr>)
         (prepQuery (defaultOptions \<lparr> minimum_match := - 1 \<rparr>) ''paint wall'') [])
     = (0, - 1)
   \<and> snd (score_item_of (defaultOptions \<lparr> minimum_match := - 1 \<rparr>)
         (prepQuery (defaultOptions \<lparr> minimum_match := - 1 \<rparr>) ''paint wall'') [[]])
     = (2, 0)"
  by code_simp

lemma null_field_raises:
  "map_sum id fst (search exact_round (generateFields (\<lambda>obj key. None)) 0 1 null_engine [])
   = Inl TypeError"
  by code_simp

lemma field_loop_score_nonneg:
  "0 \<le> s \<Longrightarrow> 0 \<le> fst (snd (field_loop opts F i q s mi pb))"
proof (induction F arbitrary: i q s mi pb)
  case Nil
  then show ?case by simp
next
  case (Cons f F)
  let ?fs = "fst (field_score_of opts f q) * (1 + pb)"
  show ?case
  proof (cases "?fs > s")
    case True
    with Cons.prems have p: "0 \<le> ?fs" by simp
    from True p Cons.IH [OF p] show ?thesis by (simp add: Let_def)
  next
    case False
    with Cons.IH [OF Cons.prems] show ?thesis by (simp add: Let_def)
  qed
qed

lemma field_loop_skips_empty:
  assumes mm: "0 \<le> minimum_match opts" and ef: "fe = [] \<or> fe = [[]]"
    and nn: "nonneg_query q" and s: "0 \<le> s"
  shows "field_loop opts (fe # rest) i q s mi pb
           = field_loop opts rest (i + 1) (snd (field_score_of opts fe q)) s mi
               (pb * bonus_position_decay opts)
       \<and> fused_score (snd (field_score_of opts fe q)) = fused_score q
       \<and> map score_item (tokens_groups (snd (field_score_of opts fe q)))
           = map score_item (tokens_groups q)"
proof -
  from ef have e: "field_score_of opts fe q = field_score_of opts [] q"
    by (auto simp: field_score_of_empty_token)
  from field_score_of_empty_field [OF mm nn] e
  have z: "fst (field_score_of opts fe q) = 0"
    and f: "fused_score (snd (field_score_of opts fe q)) = fused_score q"
    and c: "map score_item (tokens_groups (snd (field_score_of opts fe q)))
              = map score_item (tokens_groups q)"
    by simp_all
  from z s f c show ?thesis by (simp add: Let_def)
qed

lemma tokens_of_empty_field: "tokens_of_field opts [] = [] \<or> tokens_of_field opts [] = [[]]"
  by (simp add: tokens_of_field_def normalize_def)



section \<open>The score of an item\<close>

subsection \<open>The best of some scores\<close>

lemma best_of_fold: "best_of xs = fold max xs 0"
  unfolding best_of_def by (rule Max.set_eq_fold)

lemma fold_max_max: "fold max xs (max a b) = max (a::real) (fold max xs b)"
proof (induction xs arbitrary: b)
  case Nil
  show ?case by simp
next
  case (Cons x xs)
  have "fold max (x # xs) (max a b) = fold max xs (max a (max x b))"
    by (simp add: max.left_commute)
  also have "\<dots> = max a (fold max xs (max x b))"
    by (rule Cons.IH)
  finally show ?case by simp
qed

lemma fold_max_ge: "(a::real) \<le> fold max xs a"
proof -
  have "fold max xs a = max a (fold max xs a)"
    using fold_max_max [of xs a a] by simp
  thus ?thesis by linarith
qed

lemma fold_max_start: "fold max xs (a::real) = max a (best_of xs)" if "0 \<le> a"
proof -
  from that have "a = max a 0" by simp
  then have "fold max xs a = fold max xs (max a 0)" by simp
  also have "\<dots> = max a (fold max xs 0)" by (rule fold_max_max)
  finally show ?thesis by (simp add: best_of_fold)
qed

lemma best_of_Nil: "best_of [] = 0"
  by (simp add: best_of_fold)

lemma best_of_ge: "0 \<le> best_of xs"
  unfolding best_of_fold by (rule fold_max_ge)

lemma best_of_append: "best_of (xs @ ys) = max (best_of xs) (best_of ys)"
proof -
  have "best_of (xs @ ys) = fold max ys (best_of xs)"
    by (simp add: best_of_fold)
  also have "\<dots> = max (best_of xs) (best_of ys)"
    by (rule fold_max_start) (rule best_of_ge)
  finally show ?thesis .
qed

lemma best_of_snoc: "best_of (xs @ [x]) = max (best_of xs) x"
  by (simp add: best_of_fold max.commute)

subsection \<open>The loops of \<open>_scoreField\<close>\<close>

lemma lane_fold_spec:
  "n \<le> length bf \<Longrightarrow> length bi = length bf \<Longrightarrow>
   fold (\<lambda>i (bf, bi). case scores ! i of
            Some sc \<Rightarrow> if sc > bf ! i then (bf[i := sc], bi[i := j]) else (bf, bi)
          | None \<Rightarrow> (bf, bi))
     [0..<n] (bf, bi) = (bf', bi') \<Longrightarrow>
   length bf' = length bf \<and> length bi' = length bf
   \<and> (\<forall>i<length bf. bf' ! i
         = (if i < n then (case scores ! i of Some sc \<Rightarrow> max sc (bf ! i) | None \<Rightarrow> bf ! i)
            else (bf ! i :: real)))"
proof (induction n arbitrary: bf' bi')
  case 0
  thus ?case by simp
next
  case (Suc n)
  let ?f = "\<lambda>i (bf, bi). case scores ! i of
            Some sc \<Rightarrow> if sc > bf ! i then (bf[i := sc], bi[i := j]) else (bf, bi)
          | None \<Rightarrow> (bf, bi)"
  obtain b1 i1 where f: "fold ?f [0..<n] (bf, bi) = (b1, i1)"
    by (cases "fold ?f [0..<n] (bf, bi)") blast
  from Suc.prems(1) have "n \<le> length bf" by simp
  from Suc.IH [OF this Suc.prems(2) f]
  have ih: "length b1 = length bf" "length i1 = length bf"
    "\<forall>i<length bf. b1 ! i
       = (if i < n then (case scores ! i of Some sc \<Rightarrow> max sc (bf ! i) | None \<Rightarrow> bf ! i)
          else bf ! i)"
    by blast+
  from Suc.prems(3) f have r: "?f n (b1, i1) = (bf', bi')"
    by simp
  have n: "n < length bf" using Suc.prems(1) by simp
  from ih(3) n have bn: "b1 ! n = bf ! n" by simp
  have len: "length bf' = length bf \<and> length bi' = length bf"
    using r ih(1,2) by (auto split: option.splits if_splits)
  have at_n: "bf' ! n = (case scores ! n of Some sc \<Rightarrow> max sc (bf ! n) | None \<Rightarrow> bf ! n)"
    using r ih(1) n bn by (auto split: option.splits if_splits)
  have other: "i \<noteq> n \<Longrightarrow> bf' ! i = b1 ! i" for i
    using r by (auto split: option.splits if_splits)
  have "\<forall>i<length bf. bf' ! i
         = (if i < Suc n then (case scores ! i of Some sc \<Rightarrow> max sc (bf ! i) | None \<Rightarrow> bf ! i)
            else bf ! i)"
  proof (intro allI impI)
    fix i assume i: "i < length bf"
    show "bf' ! i = (if i < Suc n
        then (case scores ! i of Some sc \<Rightarrow> max sc (bf ! i) | None \<Rightarrow> bf ! i) else bf ! i)"
    proof (cases "i = n")
      case True
      show ?thesis unfolding True using at_n by simp
    next
      case False
      with other [OF False] ih(3) i show ?thesis by (simp add: less_Suc_eq)
    qed
  qed
  with len show ?case by simp
qed

lemma fold_max_map_filter_Cons:
  "fold max (List.map_filter f (t # ts)) (a::real)
   = fold max (List.map_filter f ts) (case f t of Some sc \<Rightarrow> max sc a | None \<Rightarrow> a)"
  by (cases "f t") (simp_all add: map_filter_simps)

lemma token_loop_spec:
  "length (tokens g) \<le> length bf \<Longrightarrow> length bi = length bf \<Longrightarrow>
   token_loop opts g toks j bf bi = (bf', bi') \<Longrightarrow>
   length bf' = length bf \<and> length bi' = length bf
   \<and> (\<forall>i<length (tokens g).
         bf' ! i = fold max (List.map_filter (lane_score opts g i) toks) (bf ! i))"
proof (induction toks arbitrary: j bf bi)
  case Nil
  thus ?case by (simp add: map_filter_simps)
next
  case (Cons t rest)
  show ?case
  proof (cases "length (tokens g) = 1")
    case True
    let ?sc = "score_map (tokens g ! 0) t (amap g) opts"
    let ?bf = "if ?sc > bf ! 0 then bf[0 := ?sc] else bf"
    let ?bi = "if ?sc > bf ! 0 then bi[0 := j] else bi"
    from Cons.prems(3) True have tl: "token_loop opts g rest (j + 1) ?bf ?bi = (bf', bi')"
      by (simp add: Let_def split: if_splits)
    have l: "length (tokens g) \<le> length ?bf" "length ?bi = length ?bf"
      using Cons.prems(1,2) by simp_all
    from Cons.IH [OF l tl]
    have ih: "length bf' = length ?bf" "length bi' = length ?bf"
      "\<forall>i<length (tokens g). bf' ! i = fold max (List.map_filter (lane_score opts g i) rest) (?bf ! i)"
      by blast+
    from True Cons.prems(1) have ne: "0 < length bf" by linarith
    have b0: "?bf ! 0 = max ?sc (bf ! 0)"
      using ne by simp
    have ls: "lane_score opts g 0 t = Some ?sc"
      using True by (simp add: lane_score_def)
    from ih(3) True have "bf' ! 0 = fold max (List.map_filter (lane_score opts g 0) rest) (?bf ! 0)"
      by simp
    with b0 ls have "bf' ! 0 = fold max (List.map_filter (lane_score opts g 0) (t # rest)) (bf ! 0)"
      by (simp add: fold_max_map_filter_Cons del: map_filter_simps)
    with ih(1,2) True show ?thesis by simp
  next
    case False
    let ?scores = "score_pack g t opts"
    let ?f = "\<lambda>i (bf, bi). case ?scores ! i of
            Some sc \<Rightarrow> if sc > bf ! i then (bf[i := sc], bi[i := j]) else (bf, bi)
          | None \<Rightarrow> (bf, bi)"
    obtain b1 i1 where f: "fold ?f [0..<length (tokens g)] (bf, bi) = (b1, i1)"
      by (cases "fold ?f [0..<length (tokens g)] (bf, bi)") blast
    from lane_fold_spec [OF Cons.prems(1,2) f]
    have st: "length b1 = length bf" "length i1 = length bf"
      "\<forall>i<length bf. b1 ! i
         = (if i < length (tokens g)
            then (case ?scores ! i of Some sc \<Rightarrow> max sc (bf ! i) | None \<Rightarrow> bf ! i)
            else bf ! i)"
      by blast+
    from Cons.prems(3) False f have tl: "token_loop opts g rest (j + 1) b1 i1 = (bf', bi')"
      by (simp add: Let_def)
    have l: "length (tokens g) \<le> length b1" "length i1 = length b1"
      using Cons.prems(1) st by simp_all
    from Cons.IH [OF l tl]
    have ih: "length bf' = length b1" "length bi' = length b1"
      "\<forall>i<length (tokens g). bf' ! i = fold max (List.map_filter (lane_score opts g i) rest) (b1 ! i)"
      by blast+
    have b1: "\<forall>i<length (tokens g).
        b1 ! i = (case lane_score opts g i t of Some sc \<Rightarrow> max sc (bf ! i) | None \<Rightarrow> bf ! i)"
      using st(3) Cons.prems(1) False by (simp add: lane_score_def)
    have "\<forall>i<length (tokens g).
        bf' ! i = fold max (List.map_filter (lane_score opts g i) (t # rest)) (bf ! i)"
      using ih(3) b1 by (simp add: fold_max_map_filter_Cons del: map_filter_simps)
    with ih(1,2) st(1) show ?thesis by simp
  qed
qed

lemma score_pack_cong: "same_group g g' \<Longrightarrow> score_pack g t opts = score_pack g' t opts"
  by (simp add: same_group_def score_pack_def)

lemma lane_score_cong: "same_group g g' \<Longrightarrow> lane_score opts g i t = lane_score opts g' i t"
  by (simp add: lane_score_def score_pack_cong) (simp add: same_group_def)

lemma lane_best_cong: "same_group g g' \<Longrightarrow> lane_best opts g i E = lane_best opts g' i E"
proof -
  assume "same_group g g'"
  then have "lane_score opts g i = lane_score opts g' i"
    by (intro ext) (rule lane_score_cong)
  then show ?thesis by (simp add: lane_best_def)
qed

lemma token_loop_cong:
  "same_group g g' \<Longrightarrow> token_loop opts g toks j bf bi = token_loop opts g' toks j bf bi"
proof (induction toks arbitrary: j bf bi)
  case Nil
  show ?case by simp
next
  case (Cons t rest)
  from Cons.prems have e: "tokens g = tokens g'" "amap g = amap g'"
    by (simp_all add: same_group_def)
  note sp = score_pack_cong [OF Cons.prems, of t opts]
  show ?case
    by (simp add: e sp Cons.IH [OF Cons.prems] Let_def)
qed

text \<open>
  The loop over the lanes: the cells of \<open>score_item\<close> take the greater of what they hold and
  the best of the field, and the field score and the last index do not depend on them.
\<close>

lemma lane_loop_spec:
  assumes "n \<le> length itm"
  shows "snd (snd (lane_loop opts bf bi n (fs, li, itm)))
           = map (\<lambda>i. max (itm ! i) (bf ! i)) [0..<n] @ drop n itm
       \<and> fst (lane_loop opts bf bi n (fs, li, itm)) = fst (lane_loop opts bf bi n (fs, li, []))
       \<and> fst (snd (lane_loop opts bf bi n (fs, li, itm)))
           = fst (snd (lane_loop opts bf bi n (fs, li, [])))"
proof -
  let ?f = "\<lambda>i (field_score, last_index, best_match_this_item).
             let sc = bf ! i;
                 field_score1 = field_score + sc;
                 item1 = (if sc > best_match_this_item ! i
                          then best_match_this_item[i := sc] else best_match_this_item)
             in if sc > minimum_match opts
                then (let tmp = int (bi ! i)
                      in (if tmp > last_index then field_score1 + bonus_token_order opts
                          else field_score1,
                          tmp, item1))
                else (field_score1, last_index, item1)"
  have "k \<le> n \<Longrightarrow>
      snd (snd (fold ?f [0..<k] (fs, li, itm)))
        = map (\<lambda>i. max (itm ! i) (bf ! i)) [0..<k] @ drop k itm
      \<and> fst (fold ?f [0..<k] (fs, li, itm)) = fst (fold ?f [0..<k] (fs, li, []))
      \<and> fst (snd (fold ?f [0..<k] (fs, li, itm))) = fst (snd (fold ?f [0..<k] (fs, li, [])))" for k
  proof (induction k)
    case 0
    show ?case by simp
  next
    case (Suc k)
    obtain a b c where st: "fold ?f [0..<k] (fs, li, itm) = (a, b, c)"
      by (cases "fold ?f [0..<k] (fs, li, itm)") auto
    obtain a' b' c' where st': "fold ?f [0..<k] (fs, li, []) = (a', b', c')"
      by (cases "fold ?f [0..<k] (fs, li, [])") auto
    from Suc st st' have c: "c = map (\<lambda>i. max (itm ! i) (bf ! i)) [0..<k] @ drop k itm"
      and ab: "a = a'" "b = b'"
      by simp_all
    from Suc.prems assms have k: "k < length itm" by simp
    then have dk: "drop k itm = itm ! k # drop (Suc k) itm"
      by (simp add: Cons_nth_drop_Suc)
    have ck: "c ! k = itm ! k"
      unfolding c dk by (simp add: nth_append)
    have upd: "c[k := bf ! k] = map (\<lambda>i. max (itm ! i) (bf ! i)) [0..<k] @ bf ! k # drop (Suc k) itm"
      unfolding c dk by (simp add: list_update_append)
    have new: "(if bf ! k > c ! k then c[k := bf ! k] else c)
        = map (\<lambda>i. max (itm ! i) (bf ! i)) [0..<Suc k] @ drop (Suc k) itm"
    proof (cases "bf ! k > c ! k")
      case True
      with ck have "max (itm ! k) (bf ! k) = bf ! k" by simp
      with True upd show ?thesis by simp
    next
      case False
      with ck have "max (itm ! k) (bf ! k) = itm ! k" by simp
      with False c dk show ?thesis by simp
    qed
    have s3: "snd (snd (?f k (a, b, c))) = (if bf ! k > c ! k then c[k := bf ! k] else c)"
      by (simp add: Let_def)
    have s1: "fst (?f k (a, b, c)) = fst (?f k (a, b, c'))"
      "fst (snd (?f k (a, b, c))) = fst (snd (?f k (a, b, c')))"
      by (simp_all add: Let_def)
    from s3 s1 new st st' ab show ?case by simp
  qed
  from this [of n] show ?thesis by (simp add: lane_loop_def)
qed

lemma zero_cells_wf: "length xs = n \<Longrightarrow> zero_cells n xs = replicate n 0"
  by (simp add: zero_cells_def)

lemma fold_max_zero: "fold max xs 0 = best_of xs"
  by (simp add: best_of_fold)

lemma group_loop_spec:
  assumes "list_all wf_group gs"
  shows "list_all wf_group (fst (group_loop opts f gs fs li))
       \<and> map score_item (fst (group_loop opts f gs fs li))
           = map (\<lambda>g. map (\<lambda>i. max (score_item g ! i)
                               (best_of (List.map_filter (lane_score opts g i) f)))
                       [0..<length (tokens g)]) gs"
  using assms
proof (induction gs arbitrary: fs li)
  case Nil
  show ?case by simp
next
  case (Cons g gs)
  let ?n = "length (tokens g)"
  from Cons.prems have wf: "wf_group g" and rest: "list_all wf_group gs" by simp_all
  from wf have len: "length (score_item g) = ?n" "length (score_field g) = ?n"
    "length (field_pos g) = ?n"
    by (simp_all add: wf_group_def)
  let ?z = "replicate ?n (0::real)" and ?zi = "replicate ?n (0::nat)"
  obtain bf bi where tl: "token_loop opts g f 0 ?z ?zi = (bf, bi)"
    by (cases "token_loop opts g f 0 ?z ?zi") auto
  from token_loop_spec [OF _ _ tl]
  have bl: "length bf = ?n" "length bi = ?n"
    and bv: "\<forall>i<?n. bf ! i = fold max (List.map_filter (lane_score opts g i) f) (?z ! i)"
    by simp_all
  from bv have bv': "\<forall>i<?n. bf ! i = best_of (List.map_filter (lane_score opts g i) f)"
    by (simp add: best_of_fold)
  let ?ll = "lane_loop opts bf bi ?n (fs, li, score_item g)"
  from lane_loop_spec [of ?n "score_item g" opts bf bi fs li] len(1)
  have it: "snd (snd ?ll) = map (\<lambda>i. max (score_item g ! i) (bf ! i)) [0..<?n]"
    by simp
  with bv' have it': "snd (snd ?ll)
      = map (\<lambda>i. max (score_item g ! i) (best_of (List.map_filter (lane_score opts g i) f)))
          [0..<?n]"
    by simp
  let ?g1 = "g \<lparr> score_field := bf, field_pos := bi, score_item := snd (snd ?ll) \<rparr>"
  have wf1: "wf_group ?g1"
    using bl it by (simp add: wf_group_def)
  have unfold: "group_loop opts f (g # gs) fs li
      = (?g1 # fst (group_loop opts f gs (fst ?ll) (fst (snd ?ll))),
         snd (group_loop opts f gs (fst ?ll) (fst (snd ?ll))))"
    using tl len by (simp add: Let_def zero_cells_wf prod_eq_iff)
  from Cons.IH [OF rest, of "fst ?ll" "fst (snd ?ll)"] wf1 it'
  show ?case unfolding unfold by simp
qed

lemma group_loop_cong:
  "list_all2 (\<lambda>g g'. same_group g g' \<and> wf_group g \<and> wf_group g') gs gs' \<Longrightarrow>
   snd (group_loop opts f gs fs li) = snd (group_loop opts f gs' fs li)"
proof (induction gs gs' arbitrary: fs li rule: list_all2_induct)
  case Nil
  show ?case by simp
next
  case (Cons g gs g' gs')
  let ?n = "length (tokens g)"
  from Cons.hyps(1) have sg: "same_group g g'" and wf: "wf_group g" "wf_group g'"
    by simp_all
  from sg have n: "length (tokens g') = ?n" by (simp add: same_group_def)
  from wf n have len: "length (score_item g) = ?n" "length (score_field g) = ?n"
    "length (field_pos g) = ?n" "length (score_item g') = ?n" "length (score_field g') = ?n"
    "length (field_pos g') = ?n"
    by (simp_all add: wf_group_def)
  let ?z = "replicate ?n (0::real)" and ?zi = "replicate ?n (0::nat)"
  let ?tl = "token_loop opts g f 0 ?z ?zi"
  have tl: "token_loop opts g' f 0 ?z ?zi = ?tl"
    by (rule token_loop_cong [OF sg, symmetric])
  let ?ll = "lane_loop opts (fst ?tl) (snd ?tl) ?n (fs, li, score_item g)"
  let ?ll' = "lane_loop opts (fst ?tl) (snd ?tl) ?n (fs, li, score_item g')"
  from lane_loop_spec [of ?n "score_item g" opts "fst ?tl" "snd ?tl" fs li]
    lane_loop_spec [of ?n "score_item g'" opts "fst ?tl" "snd ?tl" fs li] len
  have e: "fst ?ll = fst ?ll'" "fst (snd ?ll) = fst (snd ?ll')"
    by simp_all
  have u: "snd (group_loop opts f (g # gs) fs li)
      = snd (group_loop opts f gs (fst ?ll) (fst (snd ?ll)))"
    using len by (simp add: Let_def zero_cells_wf)
  have u': "snd (group_loop opts f (g' # gs') fs li)
      = snd (group_loop opts f gs' (fst ?ll') (fst (snd ?ll')))"
    using len n tl by (simp add: Let_def zero_cells_wf)
  show ?case
    unfolding u u' e by (rule Cons.IH)
qed

subsection \<open>The score of a field and what it leaves in the query\<close>

lemma same_wf_groups:
  "list_all2 same_group gs gs' \<Longrightarrow> list_all wf_group gs \<Longrightarrow> list_all wf_group gs' \<Longrightarrow>
   list_all2 (\<lambda>g g'. same_group g g' \<and> wf_group g \<and> wf_group g') gs gs'"
  by (induction gs gs' rule: list_all2_induct) simp_all

lemma field_score_of_value:
  assumes ss: "same_static q q'" and wf: "wf_query q" "wf_query q'"
  shows "fst (field_score_of opts f q) = fst (field_score_of opts f q')"
proof -
  from ss have e: "fused_str q = fused_str q'" "fused_map q = fused_map q'" "single q = single q'"
    and g: "list_all2 same_group (tokens_groups q) (tokens_groups q')"
    by (simp_all add: same_static_def)
  from same_wf_groups [OF g] wf
  have "list_all2 (\<lambda>g g'. same_group g g' \<and> wf_group g \<and> wf_group g')
          (tokens_groups q) (tokens_groups q')"
    by (simp add: wf_query_def)
  from group_loop_cong [OF this]
  have gl: "snd (group_loop opts f (tokens_groups q) 0 (- 1))
          = snd (group_loop opts f (tokens_groups q') 0 (- 1))" .
  show ?thesis
    using e gl
    by (simp add: field_score_of_def scoreField_def scoreFieldSingle_def Let_def)
qed

lemma field_score_of_wf:
  assumes "wf_query q"
  shows "wf_query (snd (field_score_of opts f q))"
proof -
  from assms have "list_all wf_group (tokens_groups q)" by (simp add: wf_query_def)
  from group_loop_spec [OF this, of opts f 0 "- 1"]
  have "list_all wf_group (fst (group_loop opts f (tokens_groups q) 0 (- 1)))" by simp
  with assms show ?thesis
    by (simp add: field_score_of_def scoreField_def scoreFieldSingle_def Let_def wf_query_def)
qed

lemma map_filter_append:
  "List.map_filter f (xs @ ys) = List.map_filter f xs @ List.map_filter f ys"
  by (simp add: List.map_filter_def)

lemma lane_best_snoc:
  "lane_best opts g i (E @ [f])
   = max (lane_best opts g i E) (best_of (List.map_filter (lane_score opts g i) f))"
  by (simp add: lane_best_def map_filter_append best_of_append)

lemma fused_over_snoc:
  "fused_over opts q (E @ [f])
   = (if score_test_fused opts
      then max (fused_over opts q E)
             (score_map (fused_str q) (join_space f) (fused_map q) opts)
      else 0)"
  by (simp add: fused_over_def best_of_snoc)

lemma fused_over_ge: "0 \<le> fused_over opts q E"
  by (simp add: fused_over_def best_of_ge)

lemma field_score_of_state:
  assumes spt: "score_per_token opts" and ns: "\<not> single q" and wf: "wf_query q"
    and ss: "same_static q q0" and st: "item_state opts q0 E q"
  shows "item_state opts q0 (E @ [f]) (snd (field_score_of opts f q))"
proof -
  let ?gs = "tokens_groups q" and ?hs = "tokens_groups q0"
  let ?r = "group_loop opts f ?gs 0 (- 1)"
  from ss have e: "fused_str q = fused_str q0" "fused_map q = fused_map q0"
    and g: "list_all2 same_group ?gs ?hs"
    by (simp_all add: same_static_def)
  from st have fu: "fused_score q = fused_over opts q0 E"
    and ci: "map score_item ?gs
             = map (\<lambda>g. map (\<lambda>i. lane_best opts g i E) [0..<length (tokens g)]) ?hs"
    by (simp_all add: item_state_def)
  from wf have "list_all wf_group ?gs" by (simp add: wf_query_def)
  from group_loop_spec [OF this, of opts f 0 "- 1"]
  have new: "map score_item (fst ?r)
           = map (\<lambda>g. map (\<lambda>i. max (score_item g ! i)
                               (best_of (List.map_filter (lane_score opts g i) f)))
                       [0..<length (tokens g)]) ?gs"
    by simp
  from g have len: "length ?gs = length ?hs" by (rule list_all2_lengthD)
  have cells: "map score_item (fst ?r)
      = map (\<lambda>g. map (\<lambda>i. lane_best opts g i (E @ [f])) [0..<length (tokens g)]) ?hs"
    unfolding new
  proof (rule nth_equalityI)
    show "length (map (\<lambda>g. map (\<lambda>i. max (score_item g ! i)
                               (best_of (List.map_filter (lane_score opts g i) f)))
                       [0..<length (tokens g)]) ?gs)
        = length (map (\<lambda>g. map (\<lambda>i. lane_best opts g i (E @ [f])) [0..<length (tokens g)]) ?hs)"
      using len by simp
  next
    fix j assume "j < length (map (\<lambda>g. map (\<lambda>i. max (score_item g ! i)
                               (best_of (List.map_filter (lane_score opts g i) f)))
                       [0..<length (tokens g)]) ?gs)"
    then have j: "j < length ?gs" by simp
    with len have j0: "j < length ?hs" by simp
    from g j have sg: "same_group (?gs ! j) (?hs ! j)" by (simp add: list_all2_conv_all_nth)
    then have tk: "tokens (?gs ! j) = tokens (?hs ! j)" by (simp add: same_group_def)
    from ci have "map score_item ?gs ! j
        = map (\<lambda>g. map (\<lambda>i. lane_best opts g i E) [0..<length (tokens g)]) ?hs ! j"
      by simp
    with j j0 have sj: "score_item (?gs ! j)
        = map (\<lambda>i. lane_best opts (?hs ! j) i E) [0..<length (tokens (?hs ! j))]"
      by simp
    have "map (\<lambda>i. max (score_item (?gs ! j) ! i)
                 (best_of (List.map_filter (lane_score opts (?gs ! j) i) f)))
            [0..<length (tokens (?gs ! j))]
        = map (\<lambda>i. lane_best opts (?hs ! j) i (E @ [f])) [0..<length (tokens (?hs ! j))]"
      unfolding tk
    proof (rule map_cong [OF refl])
      fix i assume "i \<in> set [0..<length (tokens (?hs ! j))]"
      then have i: "i < length (tokens (?hs ! j))" by simp
      from sj i have "score_item (?gs ! j) ! i = lane_best opts (?hs ! j) i E" by simp
      moreover have "lane_score opts (?gs ! j) i = lane_score opts (?hs ! j) i"
        by (intro ext) (rule lane_score_cong [OF sg])
      ultimately show "max (score_item (?gs ! j) ! i)
                 (best_of (List.map_filter (lane_score opts (?gs ! j) i) f))
          = lane_best opts (?hs ! j) i (E @ [f])"
        by (simp add: lane_best_snoc)
    qed
    with j j0 show "map (\<lambda>g. map (\<lambda>i. max (score_item g ! i)
                               (best_of (List.map_filter (lane_score opts g i) f)))
                       [0..<length (tokens g)]) ?gs ! j
        = map (\<lambda>g. map (\<lambda>i. lane_best opts g i (E @ [f])) [0..<length (tokens g)]) ?hs ! j"
      by simp
  qed
  let ?fused = "score_map (fused_str q0) (join_space f) (fused_map q0) opts"
  have fs: "fused_score (snd (field_score_of opts f q))
      = (if score_test_fused opts
         then (if ?fused > fused_score q then ?fused else fused_score q)
         else fused_score q)"
    using spt ns e by (simp add: field_score_of_def scoreField_def Let_def)
  have fused: "fused_score (snd (field_score_of opts f q)) = fused_over opts q0 (E @ [f])"
  proof (cases "score_test_fused opts")
    case True
    with fs fu show ?thesis
      unfolding fused_over_snoc by (simp add: max_def)
  next
    case False
    with fs fu show ?thesis
      by (simp add: fused_over_def)
  qed
  have tg: "map score_item (tokens_groups (snd (field_score_of opts f q)))
          = map score_item (fst ?r)"
    using spt ns by (simp add: field_score_of_def scoreField_def Let_def)
  from fused tg cells show ?thesis
    by (simp add: item_state_def)
qed

subsection \<open>The loop over the fields\<close>

lemma n_evaluated_stop:
  assumes "k < length F" "stops_at opts q F k" "\<forall>j<k. \<not> stops_at opts q F j"
  shows "n_evaluated opts q F = Suc k"
proof -
  have "find (stops_at opts q F) [0..<length F] = Some k"
    unfolding find_Some_iff
    using assms by (intro exI [of _ k]) simp
  then show ?thesis by (simp add: n_evaluated_def)
qed

lemma n_evaluated_all:
  assumes "\<forall>j<length F. \<not> stops_at opts q F j"
  shows "n_evaluated opts q F = length F"
proof -
  have "find (stops_at opts q F) [0..<length F] = None"
    unfolding find_None_iff using assms by simp
  then show ?thesis by (simp add: n_evaluated_def)
qed

lemma best_boosted_Suc:
  "best_boosted opts q F (Suc i) = max (best_boosted opts q F i) (boosted opts q F i)"
  by (simp add: best_boosted_def best_of_snoc)

lemma field_loop_run:
  assumes wf0: "wf_query q0"
  shows "F = pre @ rest \<Longrightarrow> i = length pre \<Longrightarrow> \<forall>j<i. \<not> stops_at opts q0 F j \<Longrightarrow>
     same_static q q0 \<Longrightarrow> wf_query q \<Longrightarrow> s = best_boosted opts q0 F i \<Longrightarrow>
     pb = bonus_position_decay opts ^ i \<Longrightarrow>
     (score_per_token opts \<and> \<not> single q0 \<longrightarrow> item_state opts q0 (take i F) q) \<Longrightarrow>
     fst (snd (field_loop opts rest i q s mi pb))
       = best_boosted opts q0 F (n_evaluated opts q0 F)
     \<and> (score_per_token opts \<and> \<not> single q0
          \<longrightarrow> item_state opts q0 (take (n_evaluated opts q0 F) F)
                (fst (field_loop opts rest i q s mi pb)))"
proof (induction rest arbitrary: pre i q s mi pb)
  case Nil
  then have "n_evaluated opts q0 F = length F"
    by (intro n_evaluated_all) simp
  with Nil show ?case by simp
next
  case (Cons f rest)
  from Cons.prems(1,2) have il: "i < length F" and fi: "F ! i = f"
    by simp_all
  let ?r = "field_score_of opts f q"
  let ?fs = "fst ?r * (1 + pb)"
  have val: "fst ?r = field_value opts q0 f"
    unfolding field_value_def
    by (rule field_score_of_value [OF Cons.prems(4,5) wf0])
  with fi Cons.prems(7) have fs: "?fs = boosted opts q0 F i"
    by (simp add: boosted_def)
  have ss1: "same_static (snd ?r) q0"
    by (rule same_static_trans [OF field_score_of_same Cons.prems(4)])
  have wf1: "wf_query (snd ?r)"
    by (rule field_score_of_wf [OF Cons.prems(5)])
  from Cons.prems(4) have sg: "single q = single q0"
    by (simp add: same_static_def)
  have tk: "take (Suc i) F = take i F @ [f]"
    using il fi by (simp add: take_Suc_conv_app_nth)
  have st1: "score_per_token opts \<and> \<not> single q0 \<longrightarrow> item_state opts q0 (take (Suc i) F) (snd ?r)"
  proof
    assume m: "score_per_token opts \<and> \<not> single q0"
    with Cons.prems(8) have "item_state opts q0 (take i F) q" by simp
    from field_score_of_state [OF _ _ Cons.prems(5,4) this, of f] m sg
    show "item_state opts q0 (take (Suc i) F) (snd ?r)"
      unfolding tk by simp
  qed
  have pre1: "F = (pre @ [f]) @ rest" "Suc i = length (pre @ [f])"
    using Cons.prems(1,2) by simp_all
  have pb1: "pb * bonus_position_decay opts = bonus_position_decay opts ^ Suc i"
    using Cons.prems(7) by simp
  show ?case
  proof (cases "?fs > s")
    case True
    with fs Cons.prems(6) have gt: "boosted opts q0 F i > best_boosted opts q0 F i"
      by simp
    then have bb: "best_boosted opts q0 F (Suc i) = ?fs"
      using fs by (simp add: best_boosted_Suc)
    show ?thesis
    proof (cases "?fs > field_good_enough opts")
      case True
      with gt fs have "stops_at opts q0 F i" by (simp add: stops_at_def)
      from n_evaluated_stop [OF il this Cons.prems(3)]
      have n: "n_evaluated opts q0 F = Suc i" .
      from True \<open>?fs > s\<close>
      have "field_loop opts (f # rest) i q s mi pb = (snd ?r, ?fs, int i)"
        by (simp add: Let_def)
      with n bb st1 show ?thesis by simp
    next
      case False
      with fs have ns: "\<not> stops_at opts q0 F i" by (simp add: stops_at_def)
      with Cons.prems(3) have nst: "\<forall>j<Suc i. \<not> stops_at opts q0 F j"
        by (simp add: less_Suc_eq)
      from False \<open>?fs > s\<close>
      have u: "field_loop opts (f # rest) i q s mi pb
          = field_loop opts rest (Suc i) (snd ?r) ?fs (int i) (pb * bonus_position_decay opts)"
        by (simp add: Let_def)
      from Cons.IH [OF pre1 nst ss1 wf1 bb [symmetric] pb1 st1]
      show ?thesis unfolding u .
    qed
  next
    case False
    with fs Cons.prems(6) have le: "boosted opts q0 F i \<le> best_boosted opts q0 F i"
      by simp
    then have bb: "s = best_boosted opts q0 F (Suc i)"
      using Cons.prems(6) by (simp add: best_boosted_Suc)
    from le have ns: "\<not> stops_at opts q0 F i" by (simp add: stops_at_def)
    with Cons.prems(3) have nst: "\<forall>j<Suc i. \<not> stops_at opts q0 F j"
      by (simp add: less_Suc_eq)
    from False
    have u: "field_loop opts (f # rest) i q s mi pb
        = field_loop opts rest (Suc i) (snd ?r) s mi (pb * bonus_position_decay opts)"
      by (simp add: Let_def)
    from Cons.IH [OF pre1 nst ss1 wf1 bb pb1 st1]
    show ?thesis unfolding u .
  qed
qed

subsection \<open>The mixing step\<close>

lemma fold_add_sum: "fold (\<lambda>s a. a + s) xs (a::real) = a + sum_list xs"
  by (induction xs arbitrary: a) simp_all

lemma fold_groups_sum:
  "fold (\<lambda>g acc. fold (\<lambda>s a. a + s) (score_item g) acc) gs (a::real)
   = a + sum_list (map sum_list (map score_item gs))"
  by (induction gs arbitrary: a) (simp_all add: fold_add_sum)

lemma query_score_of_state:
  assumes "item_state opts q0 E q"
  shows "query_score_of q = max (query_score_over opts q0 E) (fused_over opts q0 E)"
proof -
  from assms have fu: "fused_score q = fused_over opts q0 E"
    and ci: "map score_item (tokens_groups q)
             = map (\<lambda>g. map (\<lambda>i. lane_best opts g i E) [0..<length (tokens g)]) (tokens_groups q0)"
    by (simp_all add: item_state_def)
  have "fold (\<lambda>g acc. fold (\<lambda>s a. a + s) (score_item g) acc) (tokens_groups q) 0
        = query_score_over opts q0 E"
    unfolding fold_groups_sum ci
    by (simp add: query_score_over_def comp_def)
  with fu show ?thesis
    by (simp add: query_score_of_def Let_def max_def)
qed

lemma reset_query_wf: "wf_query q \<Longrightarrow> wf_query (reset_query q)"
  by (simp add: wf_query_def reset_query_def wf_group_def list_all_iff)

lemma reset_query_state:
  assumes "wf_query q"
  shows "item_state opts q [] (reset_query q)"
proof -
  have "map score_item (tokens_groups (reset_query q))
      = map (\<lambda>g. replicate (length (score_item g)) 0) (tokens_groups q)"
    by (simp add: reset_query_def comp_def)
  also have "\<dots> = map (\<lambda>g. map (\<lambda>i. lane_best opts g i []) [0..<length (tokens g)])
                      (tokens_groups q)"
  proof (rule map_cong [OF refl])
    fix g assume "g \<in> set (tokens_groups q)"
    with assms have "length (score_item g) = length (tokens g)"
      by (simp add: wf_query_def wf_group_def list_all_iff)
    then show "replicate (length (score_item g)) 0
        = map (\<lambda>i. lane_best opts g i []) [0..<length (tokens g)]"
      by (simp add: lane_best_def map_filter_simps best_of_Nil map_replicate_const)
  qed
  finally have c: "map score_item (tokens_groups (reset_query q))
      = map (\<lambda>g. map (\<lambda>i. lane_best opts g i []) [0..<length (tokens g)]) (tokens_groups q)" .
  have "fused_score (reset_query q) = fused_over opts q []"
    by (simp add: reset_query_def fused_over_def best_of_Nil)
  with c show ?thesis by (simp add: item_state_def)
qed

lemma score_item_of_mixed:
  assumes wf: "wf_query q"
  shows "fst (snd (score_item_of opts q F)) = mixed_score opts q F (n_evaluated opts q F)"
proof -
  let ?r = "field_loop opts F 0 (reset_query q) 0 (- 1) 1"
  let ?n = "n_evaluated opts q F"
  have st0: "score_per_token opts \<and> \<not> single q \<longrightarrow> item_state opts q (take 0 F) (reset_query q)"
    using reset_query_state [OF wf] by simp
  have b0: "0 = best_boosted opts q F 0"
    by (simp add: best_boosted_def best_of_Nil)
  have p0: "1 = bonus_position_decay opts ^ 0"
    by simp
  from field_loop_run [OF wf, of F "[]" F 0 opts "reset_query q" 0 1 "- 1",
      OF _ _ _ reset_query_same reset_query_wf [OF wf] b0 p0 st0]
  have s: "fst (snd ?r) = best_boosted opts q F ?n"
    and st: "score_per_token opts \<and> \<not> single q
             \<longrightarrow> item_state opts q (take ?n F) (fst ?r)"
    by simp_all
  have "same_static (fst ?r) (reset_query q)"
    by (rule field_loop_same)
  from same_static_trans [OF this reset_query_same]
  have sg: "single (fst ?r) = single q"
    by (simp add: same_static_def)
  show ?thesis
  proof (cases "score_per_token opts \<and> \<not> single q")
    case True
    with st have "item_state opts q (take ?n F) (fst ?r)" by simp
    from query_score_of_state [OF this] True s sg show ?thesis
      by (simp add: score_item_of_def Let_def mixed_score_def)
  next
    case False
    with s sg show ?thesis
      by (auto simp: score_item_of_def Let_def mixed_score_def)
  qed
qed

lemma prepQuery_wf: "wf_query (prepQuery opts qs)"
proof -
  have "list_all wf_group (pack_tokens ts)" for ts
    unfolding pack_tokens_def
    by (rule pack_groups_new) (simp_all add: new_PackInfo_def wf_group_def)
  then show ?thesis
    by (simp add: wf_query_def prepQuery_def Let_def)
qed

lemma field_loop_wf: "wf_query q \<Longrightarrow> wf_query (fst (field_loop opts F i q s mi pb))"
proof (induction F arbitrary: i q s mi pb)
  case Nil
  then show ?case by simp
next
  case (Cons f F)
  note w = field_score_of_wf [OF Cons.prems, of opts f]
  show ?case
    using w Cons.IH [OF w] by (simp add: Let_def)
qed

lemma score_item_of_wf: "wf_query q \<Longrightarrow> wf_query (fst (score_item_of opts q F))"
  by (simp add: score_item_of_def Let_def field_loop_wf reset_query_wf)

lemma fold_wf:
  "wf_query q \<Longrightarrow> wf_query (fold (\<lambda>F q. fst (score_item_of opts q F)) Fs q)"
  by (induction Fs arbitrary: q) (simp_all add: score_item_of_wf)

lemma query_after_wf: "wf_query (query_after opts qs Fs)"
  unfolding query_after_def by (rule fold_wf) (rule prepQuery_wf)

text \<open>
  C5, as amended.  The item is scored against the query as \<open>_searchIndex\<close> has it, prepared
  from a query string and changed by the scoring of any items before.  The loop over the
  fields reads the fields up to and including the first whose boosted score is above the
  best so far and above \<open>field_good_enough\<close>, all of them if there is none
  (\<open>n_evaluated\<close>).  With per-token scoring and two query tokens or more, the item score is
  half the best boosted score of the fields read plus half the query score, which is the
  sum over the groups and their lanes of the best score of the lane over the tokens of the
  fields read, or the greatest fused score of the fields read if that is greater.
  Otherwise the item score is the best boosted score of the fields read.  No best is
  below 0.
\<close>

theorem item_score_mixed:
  "fst (snd (score_item_of opts (query_after opts qs Fs) F))
   = mixed_score opts (query_after opts qs Fs) F
       (n_evaluated opts (query_after opts qs Fs) F)"
  by (rule score_item_of_mixed) (rule query_after_wf)

lemma item_score_example:
  "fst (snd (score_item_of (defaultOptions \<lparr> field_good_enough := 100 \<rparr>)
       (query_after (defaultOptions \<lparr> field_good_enough := 100 \<rparr>) ''abcdefghij klmnopqrst''
          [[[''abcdefghij'']]])
       [[''klmnopqrst''], [''abcdefghij'', ''zzz'']])) = 32"
  by code_simp

theorem item_score_mixed_witness:
  "mixed_score (defaultOptions \<lparr> field_good_enough := 100 \<rparr>)
     (query_after (defaultOptions \<lparr> field_good_enough := 100 \<rparr>) ''abcdefghij klmnopqrst''
        [[[''abcdefghij'']]])
     [[''klmnopqrst''], [''abcdefghij'', ''zzz'']]
     (n_evaluated (defaultOptions \<lparr> field_good_enough := 100 \<rparr>)
        (query_after (defaultOptions \<lparr> field_good_enough := 100 \<rparr>) ''abcdefghij klmnopqrst''
           [[[''abcdefghij'']]])
        [[''klmnopqrst''], [''abcdefghij'', ''zzz'']]) = 32"
  using item_score_mixed [of "defaultOptions \<lparr> field_good_enough := 100 \<rparr>"
      "''abcdefghij klmnopqrst''" "[[[''abcdefghij'']]]"
      "[[''klmnopqrst''], [''abcdefghij'', ''zzz'']]"]
    item_score_example
  by simp

text \<open>
  C5, as stated, fails when the loop over the fields stops early.  Under the default
  options, for the query \<open>abcdefghij klmnopqrst\<close> and an item with the two fields
  \<open>abcdefghij\<close> and \<open>klmnopqrst\<close>, the first field is good enough and the second is not
  read: the item scores \<open>49/2\<close>, where the best boosted field score and the best lane
  scores over all the fields of the item give 32.
\<close>

theorem item_score_counterexample:
  "fst (snd (score_item_of defaultOptions (prepQuery defaultOptions ''abcdefghij klmnopqrst'')
       [[''abcdefghij''], [''klmnopqrst'']])) = 49 / 2
   \<and> mixed_score defaultOptions (prepQuery defaultOptions ''abcdefghij klmnopqrst'')
       [[''abcdefghij''], [''klmnopqrst'']] (length [[''abcdefghij''], [''klmnopqrst'']]) = 32
   \<and> n_evaluated defaultOptions (prepQuery defaultOptions ''abcdefghij klmnopqrst'')
       [[''abcdefghij''], [''klmnopqrst'']] = 1
   \<and> single (prepQuery defaultOptions ''abcdefghij klmnopqrst'') = False
   \<and> score_per_token defaultOptions = True"
  by code_simp

end
